theory Spec2Isabelle
  imports Main
begin

section \<open>Data model\<close>

text \<open>
  The development embeds the Google Cloud Storage transfer module of the repository
  (\<^verbatim>\<open>uploadPaths\<close>, \<^verbatim>\<open>cleanupLocalPaths\<close>, \<^verbatim>\<open>enabled\<close>, \<^verbatim>\<open>getContentType\<close>).

  A transfer task is the object literal pushed on \<^verbatim>\<open>uploadList\<close>:
  \<^verbatim>\<open>{ src, dest, relativePath, retries: 0 }\<close>.  JavaScript objects have an identity;
  the field \<open>tid\<close> stands for it (the position at which the object was pushed).
\<close>

record task =
  tid :: nat
  src :: string
  dest :: string
  relativePath :: string
  retries :: nat

text \<open>An exception thrown by a synchronous filesystem call (\<^verbatim>\<open>lstatSync\<close>, \<^verbatim>\<open>glob.sync\<close>).\<close>

datatype fs_error = FsError string

text \<open>
  The Node.js built-ins and the \<^verbatim>\<open>glob\<close> package are not part of the repository; the
  functions the module calls are taken as parameters:
  \<^item> \<open>path_join\<close>, \<open>path_basename\<close>, \<open>path_extname\<close>: \<^verbatim>\<open>path.join\<close>, \<^verbatim>\<open>path.basename\<close>,
    \<^verbatim>\<open>path.extname\<close>;
  \<^item> \<open>existsSync\<close>: \<^verbatim>\<open>fs.existsSync\<close> (never throws);
  \<^item> \<open>lstatSync_isDirectory p\<close>: \<^verbatim>\<open>fs.lstatSync(p).isDirectory()\<close>, \<open>Inl\<close> when it throws;
  \<^item> \<open>glob_sync pattern cwd\<close>: \<^verbatim>\<open>glob.sync(pattern, {cwd, nodir: true, nosort: true})\<close>,
    \<open>Inl\<close> when it throws;
  \<^item> \<open>statSync_size p\<close>: \<^verbatim>\<open>fs.statSync(p).size\<close> of a file of the task list.
\<close>

record node_env =
  path_join :: "string \<Rightarrow> string \<Rightarrow> string"
  path_basename :: "string \<Rightarrow> string"
  path_extname :: "string \<Rightarrow> string"
  existsSync :: "string \<Rightarrow> bool"
  lstatSync_isDirectory :: "string \<Rightarrow> fs_error + bool"
  glob_sync :: "string \<Rightarrow> string \<Rightarrow> fs_error + string list"
  statSync_size :: "string \<Rightarrow> nat"

text \<open>The module variables \<^verbatim>\<open>storage\<close> and \<^verbatim>\<open>bucket\<close>, both \<^verbatim>\<open>null\<close> at load time.\<close>

datatype storage_client = Storage
datatype bucket_handle = Bucket string

record gcs_module =
  storage :: "storage_client option"
  bucket :: "bucket_handle option"

text \<open>
  The configuration entries the module reads.  \<open>gcsParallelUploads\<close> is a count; \<open>0\<close>
  also stands for an entry that is not set (both are falsy in
  \<^verbatim>\<open>config.gcsParallelUploads || 16\<close>).
\<close>

record config =
  gcsBucket :: string
  gcsParallelUploads :: nat

text \<open>
  Errors handed to the completion callback:
  \<^verbatim>\<open>new Error("GCS is not initialized")\<close> and
  \<^verbatim>\<open>new Error(`Failed to upload ${filename} after ${MAX_RETRIES} retries: ${err.message}`)\<close>.
\<close>

datatype upload_error =
    GcsNotInitialized
  | FailedToUpload string nat string

text \<open>
  The texts given to \<^verbatim>\<open>logger\<close> and to \<^verbatim>\<open>onOutput\<close>, one constructor for each template
  of the source, with the interpolated values as arguments.  Sizes are kept in bytes and
  progress as the two counters (the source prints megabytes, a rounded percentage and the
  elapsed wall-clock time).
\<close>

datatype message =
    SkippingNonExistentPath string
  | NoFilesToUpload
  | UploadingFiles nat string
  | UploadingFile string string string nat
  | UploadErrorFor string string
  | Retrying string nat nat nat
  | Uploaded nat nat string nat
  | SuccessfullyUploaded nat
  | CleaningUp
  | FailedToDeleteDirectory string string
  | DeletedDirectory string
  | FailedToDeleteFile string string
  | DeletedFile string
  | LocalCleanupCompleted

datatype level = Debug | Info | Warn

text \<open>The options object given to \<^verbatim>\<open>gcsFile.createWriteStream\<close>.\<close>

record upload_options =
  resumable :: bool
  validation :: string
  contentType :: string
  chunkSize :: "nat option"

text \<open>
  What the module does to the outside, in order: a \<^verbatim>\<open>logger\<close> call, an \<^verbatim>\<open>onOutput\<close> call,
  a call of the completion callback \<^verbatim>\<open>cb\<close>, the start of a transfer (the worker function
  of the queue opening the streams), a \<^verbatim>\<open>setTimeout\<close> (task, delay in milliseconds), a call
  of the worker's \<^verbatim>\<open>done\<close>, and a deletion (\<^verbatim>\<open>rimraf\<close>, \<^verbatim>\<open>fs.unlink\<close>).
\<close>

datatype obs =
    Log level message
  | Output message
  | Callback "upload_error option"
  | Dispatch task upload_options
  | SetTimeout nat nat
  | WorkerDone nat "upload_error option"
  | Rimraf string
  | Unlink string

fun callbacks :: "obs list \<Rightarrow> upload_error option list" where
  "callbacks [] = []"
| "callbacks (Callback e # tr) = e # callbacks tr"
| "callbacks (_ # tr) = callbacks tr"

fun dispatched :: "obs list \<Rightarrow> nat list" where
  "dispatched [] = []"
| "dispatched (Dispatch t _ # tr) = tid t # dispatched tr"
| "dispatched (_ # tr) = dispatched tr"

section \<open>The module state and \<^verbatim>\<open>enabled\<close>\<close>

definition initial_module :: gcs_module where
  "initial_module = \<lparr>storage = None, bucket = None\<rparr>"

definition enabled :: "gcs_module \<Rightarrow> bool" where
  "enabled m = (storage m \<noteq> None \<and> bucket m \<noteq> None)"

section \<open>Content type and upload options\<close>

definition toLowerCase :: "string \<Rightarrow> string" where
  "toLowerCase s =
     map (\<lambda>c. if 65 \<le> (of_char c :: nat) \<and> (of_char c :: nat) \<le> 90
               then char_of ((of_char c :: nat) + 32) else c) s"

definition contentTypes :: "(string \<times> string) list" where
  "contentTypes =
    [(''.tif'', ''image/tiff''),
     (''.tiff'', ''image/tiff''),
     (''.png'', ''image/png''),
     (''.jpg'', ''image/jpeg''),
     (''.jpeg'', ''image/jpeg''),
     (''.json'', ''application/json''),
     (''.xml'', ''application/xml''),
     (''.zip'', ''application/zip''),
     (''.las'', ''application/octet-stream''),
     (''.laz'', ''application/octet-stream''),
     (''.ply'', ''application/octet-stream''),
     (''.obj'', ''model/obj''),
     (''.mtl'', ''model/mtl''),
     (''.glb'', ''model/gltf-binary''),
     (''.pdf'', ''application/pdf''),
     (''.txt'', ''text/plain''),
     (''.csv'', ''text/csv''),
     (''.geojson'', ''application/geo+json''),
     (''.gpkg'', ''application/geopackage+sqlite3''),
     (''.mbtiles'', ''application/x-sqlite3''),
     (''.kmz'', ''application/vnd.google-earth.kmz'')]"

definition getContentType :: "node_env \<Rightarrow> string \<Rightarrow> string" where
  "getContentType env filePath =
     (let ext = toLowerCase (path_extname env filePath)
      in case map_of contentTypes ext of
           Some ct \<Rightarrow> ct
         | None \<Rightarrow> ''application/octet-stream'')"

text \<open>
  \<^verbatim>\<open>uploadOptions\<close> as the worker builds it: \<^verbatim>\<open>resumable: fileSize > 5 * 1024 * 1024\<close>,
  and \<^verbatim>\<open>chunkSize = 10 * 1024 * 1024\<close> only \<^verbatim>\<open>if (fileSize > 10 * 1024 * 1024)\<close>.
\<close>

definition uploadOptions :: "node_env \<Rightarrow> string \<Rightarrow> nat \<Rightarrow> upload_options" where
  "uploadOptions env file_src fileSize =
     (let opts = \<lparr>resumable = (fileSize > 5 * 1024 * 1024),
                  validation = ''crc32c'',
                  contentType = getContentType env file_src,
                  chunkSize = None\<rparr>
      in if fileSize > 10 * 1024 * 1024
         then opts\<lparr>chunkSize := Some (10 * 1024 * 1024)\<rparr>
         else opts)"

section \<open>Building the upload list\<close>

text \<open>\<^verbatim>\<open>uploadList.push({src: path.join(srcFolder, rp), dest: path.join(dstFolder, rp),
  relativePath: rp, retries: 0})\<close>; both branches of the source push an object of this
  shape (in the file branch \<^verbatim>\<open>fullPath\<close> is \<^verbatim>\<open>path.join(srcFolder, p)\<close>).\<close>

definition push_task :: "node_env \<Rightarrow> string \<Rightarrow> string \<Rightarrow> string \<Rightarrow> task list \<Rightarrow> task list" where
  "push_task env srcFolder dstFolder rp uploadList =
     uploadList @ [\<lparr>tid = length uploadList,
                    src = path_join env srcFolder rp,
                    dest = path_join env dstFolder rp,
                    relativePath = rp,
                    retries = 0\<rparr>]"

text \<open>\<^verbatim>\<open>globPaths.forEach(gp => uploadList.push(...))\<close>\<close>

fun push_globPaths :: "node_env \<Rightarrow> string \<Rightarrow> string \<Rightarrow> string list \<Rightarrow> task list \<Rightarrow> task list" where
  "push_globPaths env srcFolder dstFolder [] uploadList = uploadList"
| "push_globPaths env srcFolder dstFolder (gp # gps) uploadList =
     push_globPaths env srcFolder dstFolder gps (push_task env srcFolder dstFolder gp uploadList)"

text \<open>
  \<^verbatim>\<open>paths.forEach(p => ...)\<close>, with the list built so far and the log as the state.  A
  throwing \<^verbatim>\<open>lstatSync\<close> or \<^verbatim>\<open>glob.sync\<close> leaves the loop (nothing in \<^verbatim>\<open>uploadPaths\<close> catches it).
\<close>

fun buildUploadList ::
  "node_env \<Rightarrow> string \<Rightarrow> string \<Rightarrow> string list \<Rightarrow> task list \<times> obs list
     \<Rightarrow> fs_error + task list \<times> obs list" where
  "buildUploadList env srcFolder dstFolder [] (uploadList, lg) = Inr (uploadList, lg)"
| "buildUploadList env srcFolder dstFolder (p # ps) (uploadList, lg) =
     (let fullPath = path_join env srcFolder p
      in if \<not> existsSync env fullPath
         then buildUploadList env srcFolder dstFolder ps
                (uploadList, lg @ [Log Debug (SkippingNonExistentPath fullPath)])
         else case lstatSync_isDirectory env fullPath of
                Inl e \<Rightarrow> Inl e
              | Inr True \<Rightarrow>
                  (case glob_sync env (p @ ''/**'') srcFolder of
                     Inl e \<Rightarrow> Inl e
                   | Inr globPaths \<Rightarrow>
                       buildUploadList env srcFolder dstFolder ps
                         (push_globPaths env srcFolder dstFolder globPaths uploadList, lg))
              | Inr False \<Rightarrow>
                  buildUploadList env srcFolder dstFolder ps
                    (push_task env srcFolder dstFolder p uploadList, lg))"

section \<open>The upload queue\<close>

text \<open>
  \<^verbatim>\<open>async.queue(worker, PARALLEL_UPLOADS)\<close> and the closure variables of \<^verbatim>\<open>uploadPaths\<close>.
  The \<^verbatim>\<open>async\<close> package (version 2, where the drain handler is assigned as
  \<^verbatim>\<open>q.drain = ...\<close>) is not part of the repository; its queue is modelled by the fields
  \<^item> \<open>concurrency\<close>: \<^verbatim>\<open>q.concurrency\<close>;
  \<^item> \<open>tasks_q\<close>: \<^verbatim>\<open>q._tasks\<close>, the pending tasks in insertion order;
  \<^item> \<open>processingScheduled\<close>: a \<^verbatim>\<open>setImmediate(q.process)\<close> requested by \<^verbatim>\<open>q.push\<close> is pending;
  \<^item> \<open>drain_set\<close>: \<^verbatim>\<open>q.drain\<close> is the handler assigned by \<^verbatim>\<open>uploadPaths\<close> (\<^verbatim>\<open>q.kill\<close> resets it
    to the no-op).
  The workers that have been started and whose \<^verbatim>\<open>done\<close> has not been called
  (\<^verbatim>\<open>numRunning\<close> of the queue) are split in two: \<open>inflight\<close> holds the tasks whose write
  stream is open, \<open>backoff\<close> the tasks waiting in a \<^verbatim>\<open>setTimeout\<close>, with the delay in
  milliseconds.  \<open>completedUploads\<close>, \<open>totalFiles\<close> and \<open>cbCalled\<close> are the variables of
  the source, \<open>trace\<close> what has been observed so far (the optional \<^verbatim>\<open>onOutput\<close> is taken
  as given; it has no part in the control flow).
\<close>

record pool =
  concurrency :: nat
  totalFiles :: nat
  tasks_q :: "task list"
  inflight :: "task list"
  backoff :: "(task \<times> nat) list"
  processingScheduled :: bool
  drain_set :: bool
  completedUploads :: nat
  cbCalled :: bool
  trace :: "obs list"

definition MAX_RETRIES :: nat where
  "MAX_RETRIES = 5"

definition PARALLEL_UPLOADS :: "config \<Rightarrow> nat" where
  "PARALLEL_UPLOADS cfg = (if gcsParallelUploads cfg = 0 then 16 else gcsParallelUploads cfg)"

definition numRunning :: "pool \<Rightarrow> nat" where
  "numRunning s = length (inflight s) + length (backoff s)"

text \<open>\<^verbatim>\<open>q.idle()\<close>: \<^verbatim>\<open>q._tasks.length + numRunning === 0\<close>.\<close>

definition idle :: "pool \<Rightarrow> bool" where
  "idle s = (length (tasks_q s) + numRunning s = 0)"

text \<open>\<^verbatim>\<open>q.push(data, errHandler)\<close> for a non-empty array or a single task: the tasks are
  appended and a \<^verbatim>\<open>q.process\<close> is scheduled.\<close>

definition q_push :: "task list \<Rightarrow> pool \<Rightarrow> pool" where
  "q_push files s = s\<lparr>tasks_q := tasks_q s @ files, processingScheduled := True\<rparr>"

text \<open>\<^verbatim>\<open>q.kill()\<close>: \<^verbatim>\<open>q.drain = noop; q._tasks.empty()\<close>.\<close>

definition q_kill :: "pool \<Rightarrow> pool" where
  "q_kill s = s\<lparr>drain_set := False, tasks_q := []\<rparr>"

text \<open>\<^verbatim>\<open>errHandler\<close>, the callback pushed with every task.\<close>

definition errHandler :: "upload_error option \<Rightarrow> pool \<Rightarrow> pool" where
  "errHandler err s =
     (case err of
        None \<Rightarrow> s
      | Some e \<Rightarrow>
          (let s1 = q_kill s
           in if \<not> cbCalled s1
              then s1\<lparr>cbCalled := True, trace := trace s1 @ [Callback (Some e)]\<rparr>
              else s1))"

text \<open>The handler assigned to \<^verbatim>\<open>q.drain\<close>, and the call \<^verbatim>\<open>q.drain()\<close> of the queue.\<close>

definition drain_handler :: "pool \<Rightarrow> pool" where
  "drain_handler s =
     (if \<not> cbCalled s
      then s\<lparr>cbCalled := True,
              trace := trace s @ [Output (SuccessfullyUploaded (totalFiles s)), Callback None]\<rparr>
      else s)"

definition q_drain :: "pool \<Rightarrow> pool" where
  "q_drain s = (if drain_set s then drain_handler s else s)"

text \<open>The worker function up to the point where the streams are piped: the transfer of
  \<open>file\<close> is in flight afterwards.  The size is read from the filesystem as it was when
  the list was built (\<^verbatim>\<open>statSync\<close> on a listed file is taken not to throw).\<close>

definition worker :: "node_env \<Rightarrow> config \<Rightarrow> task \<Rightarrow> pool \<Rightarrow> pool" where
  "worker env cfg file s =
     (let fileSize = statSync_size env (src file)
      in s\<lparr>inflight := inflight s @ [file],
            trace := trace s @
              [Log Debug (UploadingFile (src file) (gcsBucket cfg) (dest file) fileSize),
               Dispatch file (uploadOptions env (src file) fileSize)]\<rparr>)"

text \<open>\<^verbatim>\<open>q.process()\<close>: \<^verbatim>\<open>while (numRunning < q.concurrency && q._tasks.length)\<close> take the first
  pending task and start the worker on it.\<close>

function process :: "node_env \<Rightarrow> config \<Rightarrow> pool \<Rightarrow> pool" where
  "process env cfg s =
     (case tasks_q s of
        [] \<Rightarrow> s
      | file # rest \<Rightarrow>
          if numRunning s < concurrency s
          then process env cfg (worker env cfg file (s\<lparr>tasks_q := rest\<rparr>))
          else s)"
  by pat_completeness auto
termination
  by (relation "measure (\<lambda>(env, cfg, s). length (tasks_q s))") (auto simp: worker_def Let_def)

text \<open>
  The callback \<^verbatim>\<open>done\<close> of a worker (\<^verbatim>\<open>_next\<close> of the queue), after the caller has taken the
  task out of the running ones: the task's callback \<^verbatim>\<open>errHandler\<close> is called with the
  argument of \<^verbatim>\<open>done\<close>, then \<^verbatim>\<open>if (q.idle()) q.drain()\<close>, then \<^verbatim>\<open>q.process()\<close>.
\<close>

definition done_cb :: "node_env \<Rightarrow> config \<Rightarrow> nat \<Rightarrow> upload_error option \<Rightarrow> pool \<Rightarrow> pool" where
  "done_cb env cfg k err s =
     (let s1 = s\<lparr>trace := trace s @ [WorkerDone k err]\<rparr>;
          s2 = errHandler err s1;
          s3 = (if idle s2 then q_drain s2 else s2)
      in process env cfg s3)"

text \<open>The \<^verbatim>\<open>'finish'\<close> handler of the write stream.\<close>

definition on_finish :: "node_env \<Rightarrow> config \<Rightarrow> task \<Rightarrow> pool \<Rightarrow> pool" where
  "on_finish env cfg file s =
     (let filename = path_basename env (dest file);
          fileSize = statSync_size env (src file);
          s1 = s\<lparr>completedUploads := completedUploads s + 1\<rparr>;
          s2 = s1\<lparr>trace := trace s1 @
                 [Output (Uploaded (completedUploads s1) (totalFiles s1) filename fileSize)]\<rparr>
      in done_cb env cfg (tid file) None s2)"

text \<open>The \<^verbatim>\<open>'error'\<close> handler of the write stream; \<open>msg\<close> is \<^verbatim>\<open>err.message\<close>.\<close>

definition on_error :: "node_env \<Rightarrow> config \<Rightarrow> task \<Rightarrow> string \<Rightarrow> pool \<Rightarrow> pool" where
  "on_error env cfg file msg s =
     (let filename = path_basename env (dest file);
          s1 = s\<lparr>trace := trace s @ [Log Debug (UploadErrorFor filename msg)]\<rparr>
      in if retries file < MAX_RETRIES
         then (let file' = file\<lparr>retries := retries file + 1\<rparr>;
                   delay = 2 ^ retries file' * 1000
               in s1\<lparr>backoff := backoff s1 @ [(file', delay)],
                      trace := trace s1 @
                        [Output (Retrying filename (retries file') MAX_RETRIES (delay div 1000)),
                         SetTimeout (tid file') delay]\<rparr>)
         else done_cb env cfg (tid file) (Some (FailedToUpload filename MAX_RETRIES msg)) s1)"

text \<open>The function given to \<^verbatim>\<open>setTimeout\<close>: \<^verbatim>\<open>q.push(file, errHandler); done();\<close>\<close>

definition on_timeout :: "node_env \<Rightarrow> config \<Rightarrow> task \<Rightarrow> pool \<Rightarrow> pool" where
  "on_timeout env cfg file s = done_cb env cfg (tid file) None (q_push [file] s)"

text \<open>
  What the event loop can run next: the pending \<^verbatim>\<open>setImmediate\<close>, the \<^verbatim>\<open>'finish'\<close> or the
  \<^verbatim>\<open>'error'\<close> event of a transfer in flight (each transfer ends with one of the two), or
  the expiry of a pending timer.  \<open>step\<close> is \<open>None\<close> when the event cannot happen in
  the state.
\<close>

datatype event =
    Immediate
  | Finish nat
  | StreamError nat string
  | Timeout nat

definition step :: "node_env \<Rightarrow> config \<Rightarrow> event \<Rightarrow> pool \<Rightarrow> pool option" where
  "step env cfg ev s =
     (case ev of
        Immediate \<Rightarrow>
          if processingScheduled s
          then Some (process env cfg (s\<lparr>processingScheduled := False\<rparr>))
          else None
      | Finish k \<Rightarrow>
          (case List.extract (\<lambda>t. tid t = k) (inflight s) of
             None \<Rightarrow> None
           | Some (before, file, after) \<Rightarrow>
               Some (on_finish env cfg file (s\<lparr>inflight := before @ after\<rparr>)))
      | StreamError k msg \<Rightarrow>
          (case List.extract (\<lambda>t. tid t = k) (inflight s) of
             None \<Rightarrow> None
           | Some (before, file, after) \<Rightarrow>
               Some (on_error env cfg file msg (s\<lparr>inflight := before @ after\<rparr>)))
      | Timeout k \<Rightarrow>
          (case List.extract (\<lambda>td. tid (fst td) = k) (backoff s) of
             None \<Rightarrow> None
           | Some (before, td, after) \<Rightarrow>
               Some (on_timeout env cfg (fst td) (s\<lparr>backoff := before @ after\<rparr>))))"

fun run :: "node_env \<Rightarrow> config \<Rightarrow> event list \<Rightarrow> pool \<Rightarrow> pool option" where
  "run env cfg [] s = Some s"
| "run env cfg (ev # evs) s =
     (case step env cfg ev s of
        None \<Rightarrow> None
      | Some s' \<Rightarrow> run env cfg evs s')"

text \<open>No event can happen any more: nothing is in flight, no timer and no
  \<^verbatim>\<open>setImmediate\<close> is pending.\<close>

definition quiescent :: "pool \<Rightarrow> bool" where
  "quiescent s = (inflight s = [] \<and> backoff s = [] \<and> \<not> processingScheduled s)"

section \<open>\<^verbatim>\<open>uploadPaths\<close>\<close>

text \<open>
  The result of the call itself: an exception thrown to the caller, a return after the
  callback has been called without any queue having been created, or a return with the
  tasks pushed on the queue (the transfers start from the event loop).
\<close>

datatype upload_result =
    Thrown fs_error
  | Returned "obs list"
  | Queued pool

definition uploadPaths ::
  "node_env \<Rightarrow> gcs_module \<Rightarrow> config \<Rightarrow> string \<Rightarrow> string \<Rightarrow> string \<Rightarrow> string list
     \<Rightarrow> upload_result" where
  "uploadPaths env m cfg srcFolder bucketName dstFolder paths =
     (if storage m = None \<or> bucket m = None
      then Returned [Callback (Some GcsNotInitialized)]
      else case buildUploadList env srcFolder dstFolder paths ([], []) of
             Inl e \<Rightarrow> Thrown e
           | Inr (uploadList, lg) \<Rightarrow>
               (let totalFiles = length uploadList
                in if totalFiles = 0
                   then Returned (lg @ [Output NoFilesToUpload, Callback None])
                   else Queued (q_push uploadList
                          \<lparr>concurrency = PARALLEL_UPLOADS cfg,
                           totalFiles = totalFiles,
                           tasks_q = [],
                           inflight = [],
                           backoff = [],
                           processingScheduled = False,
                           drain_set = True,
                           completedUploads = 0,
                           cbCalled = False,
                           trace = lg @ [Output (UploadingFiles totalFiles (gcsBucket cfg))]\<rparr>)))"

section \<open>\<^verbatim>\<open>cleanupLocalPaths\<close>\<close>






section \<open>Specification-level descriptions\<close>

text \<open>The first exception raised by the filesystem calls that the expansion makes, in
  the order of the input paths.\<close>

fun first_fs_error :: "node_env \<Rightarrow> string \<Rightarrow> string list \<Rightarrow> fs_error option" where
  "first_fs_error env srcFolder [] = None"
| "first_fs_error env srcFolder (p # ps) =
     (if \<not> existsSync env (path_join env srcFolder p)
      then first_fs_error env srcFolder ps
      else case lstatSync_isDirectory env (path_join env srcFolder p) of
             Inl e \<Rightarrow> Some e
           | Inr True \<Rightarrow>
               (case glob_sync env (p @ ''/**'') srcFolder of
                  Inl e \<Rightarrow> Some e
                | Inr _ \<Rightarrow> first_fs_error env srcFolder ps)
           | Inr False \<Rightarrow> first_fs_error env srcFolder ps)"

text \<open>The relative paths one input path stands for: none when it does not exist under
  the root, the files listed beneath it when it is a directory, itself when it is a
  file.\<close>

definition expected_paths :: "node_env \<Rightarrow> string \<Rightarrow> string \<Rightarrow> string list" where
  "expected_paths env srcFolder p =
     (if \<not> existsSync env (path_join env srcFolder p) then []
      else case lstatSync_isDirectory env (path_join env srcFolder p) of
             Inr True \<Rightarrow>
               (case glob_sync env (p @ ''/**'') srcFolder of
                  Inr globPaths \<Rightarrow> globPaths
                | Inl _ \<Rightarrow> [])
           | Inr False \<Rightarrow> [p]
           | Inl _ \<Rightarrow> [])"

text \<open>One debug line for each input path that does not exist.\<close>

definition skip_logs :: "node_env \<Rightarrow> string \<Rightarrow> string list \<Rightarrow> obs list" where
  "skip_logs env srcFolder paths =
     map (\<lambda>p. Log Debug (SkippingNonExistentPath (path_join env srcFolder p)))
       (filter (\<lambda>p. \<not> existsSync env (path_join env srcFolder p)) paths)"

text \<open>The tasks for a list of relative paths, numbered from \<open>n\<close>.\<close>

fun tasks_from :: "node_env \<Rightarrow> string \<Rightarrow> string \<Rightarrow> nat \<Rightarrow> string list \<Rightarrow> task list" where
  "tasks_from env srcFolder dstFolder n [] = []"
| "tasks_from env srcFolder dstFolder n (rp # rps) =
     \<lparr>tid = n, src = path_join env srcFolder rp, dest = path_join env dstFolder rp,
      relativePath = rp, retries = 0\<rparr> # tasks_from env srcFolder dstFolder (Suc n) rps"

text \<open>The calls of the completion callback that a call of \<^verbatim>\<open>uploadPaths\<close> has made when
  it returns or throws.\<close>

fun result_callbacks :: "upload_result \<Rightarrow> upload_error option list" where
  "result_callbacks (Thrown e) = []"
| "result_callbacks (Returned tr) = callbacks tr"
| "result_callbacks (Queued p) = callbacks (trace p)"

section \<open>Measures and invariants of the queue\<close>

text \<open>The tasks the batch still holds: pending, in flight, or waiting for a retry.\<close>

definition live_tasks :: "pool \<Rightarrow> task list" where
  "live_tasks s = tasks_q s @ inflight s @ map fst (backoff s)"

text \<open>The error of the first worker that gave up (the first \<^verbatim>\<open>done(err)\<close> with an error).\<close>

fun first_error :: "obs list \<Rightarrow> upload_error option" where
  "first_error [] = None"
| "first_error (WorkerDone k (Some e) # tr) = Some e"
| "first_error (_ # tr) = first_error tr"

text \<open>The delays, in milliseconds, of the timers set for task \<open>k\<close>, in order.\<close>

fun delays_of :: "nat \<Rightarrow> obs list \<Rightarrow> nat list" where
  "delays_of k [] = []"
| "delays_of k (SetTimeout j d # tr) = (if j = k then d # delays_of k tr else delays_of k tr)"
| "delays_of k (_ # tr) = delays_of k tr"

text \<open>The delays of \<open>r\<close> successive retries: \<open>2 ^ j\<close> seconds for the \<open>j\<close>-th one.\<close>

definition backoff_delays :: "nat \<Rightarrow> nat list" where
  "backoff_delays r = map (\<lambda>j. 2 ^ j * 1000) [1..<Suc r]"

text \<open>The number of tasks that one \<^verbatim>\<open>q.process()\<close> starts, and what starting one task adds
  to the trace.\<close>

definition dispatch_count :: "pool \<Rightarrow> nat" where
  "dispatch_count s = min (length (tasks_q s)) (concurrency s - numRunning s)"

definition start_obs :: "node_env \<Rightarrow> config \<Rightarrow> task \<Rightarrow> obs list" where
  "start_obs env cfg file =
     [Log Debug (UploadingFile (src file) (gcsBucket cfg) (dest file) (statSync_size env (src file))),
      Dispatch file (uploadOptions env (src file) (statSync_size env (src file)))]"



text \<open>The invariant of the callback: \<open>cbCalled\<close> tells whether the callback has been called;
  the calls are the one with the first fatal error if there is one, else the one with no
  error if the queue is idle, else none; \<^verbatim>\<open>q.drain\<close> is the handler until a worker gives up.\<close>

definition cb_inv :: "pool \<Rightarrow> bool" where
  "cb_inv s =
     (0 < concurrency s \<and>
      cbCalled s = (callbacks (trace s) \<noteq> []) \<and>
      callbacks (trace s) =
        (case first_error (trace s) of
           Some e \<Rightarrow> [Some e]
         | None \<Rightarrow> if idle s then [None] else []) \<and>
      drain_set s = (first_error (trace s) = None))"

text \<open>A pending task that a free worker could take has a \<^verbatim>\<open>q.process\<close> scheduled.\<close>

definition sched_inv :: "pool \<Rightarrow> bool" where
  "sched_inv s = (tasks_q s \<noteq> [] \<and> numRunning s < concurrency s \<longrightarrow> processingScheduled s)"

text \<open>The state in which a worker's \<^verbatim>\<open>done\<close> is called: no success has been reported.\<close>

definition cb_pre :: "pool \<Rightarrow> bool" where
  "cb_pre s =
     (0 < concurrency s \<and>
      cbCalled s = (callbacks (trace s) \<noteq> []) \<and>
      callbacks (trace s) =
        (case first_error (trace s) of Some e \<Rightarrow> [Some e] | None \<Rightarrow> []) \<and>
      drain_set s = (first_error (trace s) = None))"

text \<open>The invariant of the tasks of the upload list \<open>ul\<close>: each task object is in one
  place only; a task has at most \<^verbatim>\<open>MAX_RETRIES\<close> retries, has waited the delays of its
  retries, and is a task of the list up to its retry count; a task in flight or waiting
  has been started.\<close>

definition task_inv :: "task list \<Rightarrow> pool \<Rightarrow> bool" where
  "task_inv ul s =
     (distinct (map tid (live_tasks s)) \<and>
      (\<forall>t \<in> set (live_tasks s).
         retries t \<le> MAX_RETRIES \<and>
         delays_of (tid t) (trace s) = backoff_delays (retries t) \<and>
         (\<exists>t0 \<in> set ul. t = t0\<lparr>retries := retries t\<rparr>)) \<and>
      (\<forall>t \<in> set (inflight s) \<union> fst ` set (backoff s). tid t \<in> set (dispatched (trace s))))"

text \<open>From \<open>s\<close> to \<open>s'\<close> no task has been added, the trace has been extended, and the
  transfers started in between are of tasks in \<open>D\<close>.\<close>

definition evolves :: "nat set \<Rightarrow> pool \<Rightarrow> pool \<Rightarrow> bool" where
  "evolves D s s' =
     (tid ` set (live_tasks s') \<subseteq> D \<and>
      (\<exists>ext. trace s' = trace s @ ext \<and> set (dispatched ext) \<subseteq> D))"

section \<open>A small filesystem for concrete runs\<close>

text \<open>
  Under \<^verbatim>\<open>/data\<close>: the file \<^verbatim>\<open>a.tif\<close> (12 MiB), the directory \<^verbatim>\<open>d\<close> with the files
  \<^verbatim>\<open>d/x.png\<close> and \<^verbatim>\<open>d/sub/y.txt\<close>, and the entry \<^verbatim>\<open>locked\<close>, on which \<^verbatim>\<open>lstatSync\<close> throws.
  Paths are joined with a slash.
\<close>

definition demo_join :: "string \<Rightarrow> string \<Rightarrow> string" where
  "demo_join a b = a @ ''/'' @ b"

definition demo_basename :: "string \<Rightarrow> string" where
  "demo_basename s = rev (takeWhile (\<lambda>c. c \<noteq> CHR ''/'') (rev s))"

definition demo_extname :: "string \<Rightarrow> string" where
  "demo_extname s =
     (let b = demo_basename s
      in if CHR ''.'' \<in> set b then CHR ''.'' # rev (takeWhile (\<lambda>c. c \<noteq> CHR ''.'') (rev b)) else [])"

definition demo_env :: node_env where
  "demo_env =
     \<lparr>path_join = demo_join,
      path_basename = demo_basename,
      path_extname = demo_extname,
      existsSync = (\<lambda>p. p \<in> set [''/data/a.tif'', ''/data/d'', ''/data/d/x.png'',
                                  ''/data/d/sub'', ''/data/d/sub/y.txt'', ''/data/locked'']),
      lstatSync_isDirectory =
        (\<lambda>p. if p = ''/data/locked'' then Inl (FsError ''EIO'')
              else Inr (p \<in> set [''/data/d'', ''/data/d/sub''])),
      glob_sync =
        (\<lambda>pat cwd. if pat = ''d/**'' \<and> cwd = ''/data'' then Inr [''d/x.png'', ''d/sub/y.txt'']
                    else Inr []),
      statSync_size = (\<lambda>p. if p = ''/data/a.tif'' then 12 * 1024 * 1024 else 1000)\<rparr>"

definition demo_module :: gcs_module where
  "demo_module = \<lparr>storage = Some Storage, bucket = Some (Bucket ''bkt'')\<rparr>"

definition demo_config :: config where
  "demo_config = \<lparr>gcsBucket = ''bkt'', gcsParallelUploads = 2\<rparr>"




text \<open>A run of the batch of \<^verbatim>\<open>a.tif\<close> and \<^verbatim>\<open>d\<close> with two workers: \<^verbatim>\<open>d/x.png\<close> is uploaded,
  \<^verbatim>\<open>a.tif\<close> fails five times and is in flight for the sixth time, \<^verbatim>\<open>d/sub/y.txt\<close> is in flight.\<close>

definition demo_events :: "event list" where
  "demo_events =
     [Immediate, Finish 1,
      StreamError 0 ''reset'', Timeout 0, StreamError 0 ''reset'', Timeout 0,
      StreamError 0 ''reset'', Timeout 0, StreamError 0 ''reset'', Timeout 0,
      StreamError 0 ''reset'', Timeout 0]"

definition demo_task0 :: task where
  "demo_task0 = \<lparr>tid = 0, src = ''/data/a.tif'', dest = ''out/a.tif'',
                  relativePath = ''a.tif'', retries = 5\<rparr>"

definition demo_task2 :: task where
  "demo_task2 = \<lparr>tid = 2, src = ''/data/d/sub/y.txt'', dest = ''out/d/sub/y.txt'',
                  relativePath = ''d/sub/y.txt'', retries = 0\<rparr>"

section \<open>Lemmas on traces and on the path expansion\<close>

lemma callbacks_append: "callbacks (xs @ ys) = callbacks xs @ callbacks ys"
  by (induction xs rule: callbacks.induct) auto

lemma dispatched_append: "dispatched (xs @ ys) = dispatched xs @ dispatched ys"
  by (induction xs rule: dispatched.induct) auto

lemma tasks_from_append:
  "tasks_from env s d n (xs @ ys) =
     tasks_from env s d n xs @ tasks_from env s d (n + length xs) ys"
  by (induction xs arbitrary: n) auto

lemma length_tasks_from [simp]: "length (tasks_from env s d n xs) = length xs"
  by (induction xs arbitrary: n) auto

lemma relativePath_tasks_from [simp]: "map relativePath (tasks_from env s d n xs) = xs"
  by (induction xs arbitrary: n) auto

lemma tid_tasks_from [simp]: "map tid (tasks_from env s d n xs) = [n..<n + length xs]"
  by (induction xs arbitrary: n) (auto simp: upt_rec)

lemma fields_tasks_from:
  "t \<in> set (tasks_from env s d n xs) \<Longrightarrow>
     src t = path_join env s (relativePath t) \<and> dest t = path_join env d (relativePath t) \<and>
     retries t = 0"
  by (induction xs arbitrary: n) auto

lemma push_globPaths_eq:
  "push_globPaths env s d gps ul = ul @ tasks_from env s d (length ul) gps"
  by (induction gps arbitrary: ul) (auto simp: push_task_def)

lemma buildUploadList_ok:
  "first_fs_error env s paths = None \<Longrightarrow>
   buildUploadList env s d paths (ul, lg) =
     Inr (ul @ tasks_from env s d (length ul) (concat (map (expected_paths env s) paths)),
          lg @ skip_logs env s paths)"
proof (induction paths arbitrary: ul lg)
  case Nil
  then show ?case by (simp add: skip_logs_def)
next
  case (Cons p ps)
  then show ?case
    by (auto simp: Let_def expected_paths_def skip_logs_def push_globPaths_eq push_task_def
        tasks_from_append split: if_splits sum.splits bool.splits)
qed

lemma buildUploadList_throws:
  "first_fs_error env s paths = Some e \<Longrightarrow> buildUploadList env s d paths (ul, lg) = Inl e"
proof (induction paths arbitrary: ul lg)
  case Nil
  then show ?case by simp
next
  case (Cons p ps)
  then show ?case
    by (auto simp: Let_def split: if_splits sum.splits bool.splits)
qed

lemma callbacks_skip_logs [simp]: "callbacks (skip_logs env s paths) = []"
  by (induction paths) (auto simp: skip_logs_def)

lemma buildUploadList_Inr_log:
  assumes "buildUploadList env s d paths ([], []) = Inr (ul, lg)"
  shows "lg = skip_logs env s paths"
proof (cases "first_fs_error env s paths")
  case None
  from buildUploadList_ok [OF None, of d "[]" "[]"] assms show ?thesis by simp
next
  case (Some e)
  from buildUploadList_throws [OF Some, of d "[]" "[]"] assms show ?thesis by simp
qed

section \<open>Path expansion\<close>



section \<open>Early returns of \<^verbatim>\<open>uploadPaths\<close>\<close>

text \<open>
  Claim C10.  Called while the storage client or the bucket handle is unset,
  \<^verbatim>\<open>uploadPaths\<close> calls the completion callback once, with the error "GCS is not
  initialized", and returns: whatever the filesystem and the paths are, no queue is
  created and nothing else is observed.
\<close>

theorem uploadPaths_not_initialized:
  assumes "\<not> enabled m"
  shows "uploadPaths env m cfg srcFolder bucketName dstFolder paths =
           Returned [Callback (Some GcsNotInitialized)]"
  using assms by (auto simp: uploadPaths_def enabled_def)

theorem uploadPaths_not_initialized_witness:
  "\<not> enabled initial_module \<and>
   uploadPaths demo_env initial_module demo_config ''/data'' ''bkt'' ''out'' [''a.tif'', ''d''] =
     Returned [Callback (Some GcsNotInitialized)]"
proof -
  have h: "\<not> enabled initial_module"
    by (simp add: enabled_def initial_module_def)
  from uploadPaths_not_initialized [OF h] h show ?thesis by simp
qed

text \<open>
  Claim C4.  On an initialised module, when the expansion yields no task,
  \<^verbatim>\<open>uploadPaths\<close> reports "No files to upload to GCS", calls the completion callback once
  with no error and returns; no queue is created.
\<close>

theorem uploadPaths_empty_batch:
  assumes "enabled m"
    and "buildUploadList env srcFolder dstFolder paths ([], []) = Inr ([], lg)"
  shows "uploadPaths env m cfg srcFolder bucketName dstFolder paths =
           Returned (lg @ [Output NoFilesToUpload, Callback None]) \<and>
         result_callbacks (uploadPaths env m cfg srcFolder bucketName dstFolder paths) = [None]"
proof -
  have "lg = skip_logs env srcFolder paths"
    using assms(2) by (rule buildUploadList_Inr_log)
  then have "callbacks lg = []" by simp
  with assms show ?thesis
    by (auto simp: uploadPaths_def enabled_def callbacks_append)
qed

theorem uploadPaths_empty_batch_witness:
  "enabled demo_module \<and>
   buildUploadList demo_env ''/data'' ''out'' [''nope''] ([], []) =
     Inr ([], [Log Debug (SkippingNonExistentPath ''/data/nope'')]) \<and>
   uploadPaths demo_env demo_module demo_config ''/data'' ''bkt'' ''out'' [''nope''] =
     Returned [Log Debug (SkippingNonExistentPath ''/data/nope''),
               Output NoFilesToUpload, Callback None]"
proof -
  have h1: "enabled demo_module"
    by (simp add: enabled_def demo_module_def)
  have h2: "buildUploadList demo_env ''/data'' ''out'' [''nope''] ([], []) =
              Inr ([], [Log Debug (SkippingNonExistentPath ''/data/nope'')])"
    by (simp add: demo_env_def demo_join_def)
  from uploadPaths_empty_batch [OF h1 h2] h1 h2 show ?thesis by simp
qed

text \<open>
  Claim C7, as the code has it.  On an initialised module, an exception thrown by
  \<^verbatim>\<open>lstatSync\<close> or \<^verbatim>\<open>glob.sync\<close> while the list is built leaves \<^verbatim>\<open>uploadPaths\<close> as that
  exception: the completion callback is not called and no queue is created.
\<close>

theorem uploadPaths_fs_error_thrown:
  assumes "enabled m"
    and "first_fs_error env srcFolder paths = Some e"
  shows "uploadPaths env m cfg srcFolder bucketName dstFolder paths = Thrown e \<and>
         result_callbacks (uploadPaths env m cfg srcFolder bucketName dstFolder paths) = []"
  using assms buildUploadList_throws [OF assms(2), of dstFolder "[]" "[]"]
  by (auto simp: uploadPaths_def enabled_def)

theorem uploadPaths_fs_error_thrown_witness:
  "enabled demo_module \<and>
   first_fs_error demo_env ''/data'' [''a.tif'', ''locked'', ''d''] = Some (FsError ''EIO'') \<and>
   uploadPaths demo_env demo_module demo_config ''/data'' ''bkt'' ''out''
     [''a.tif'', ''locked'', ''d''] = Thrown (FsError ''EIO'')"
proof -
  have h1: "enabled demo_module"
    by (simp add: enabled_def demo_module_def)
  have h2: "first_fs_error demo_env ''/data'' [''a.tif'', ''locked'', ''d''] =
              Some (FsError ''EIO'')"
    by (simp add: demo_env_def demo_join_def)
  from uploadPaths_fs_error_thrown [OF h1 h2] h1 h2 show ?thesis by simp
qed

text \<open>
  The claim as the specification words it fails: with \<^verbatim>\<open>lstatSync\<close> throwing on
  \<^verbatim>\<open>/data/locked\<close>, the call has made no call of the completion callback.
\<close>

theorem uploadPaths_fs_error_counterexample:
  "lstatSync_isDirectory demo_env (path_join demo_env ''/data'' ''locked'') =
     Inl (FsError ''EIO'') \<and>
   result_callbacks
     (uploadPaths demo_env demo_module demo_config ''/data'' ''bkt'' ''out'' [''locked'']) = []"
  by (simp add: uploadPaths_def demo_env_def demo_join_def demo_module_def)

section \<open>Transfer mode\<close>

text \<open>
  Claim C8.  Every transfer is started with the options computed from the size of the
  file: resumable exactly when the file is larger than 5 MiB, and with a chunk size, of
  10 MiB, exactly when it is larger than 10 MiB; a file of 12 MiB is uploaded resumable
  and in chunks.
\<close>

theorem uploadOptions_by_size:
  "trace (worker env cfg file s) =
     trace s @
       [Log Debug (UploadingFile (src file) (gcsBucket cfg) (dest file)
                     (statSync_size env (src file))),
        Dispatch file (uploadOptions env (src file) (statSync_size env (src file)))] \<and>
   resumable (uploadOptions env file_src fileSize) = (5 * 1024 * 1024 < fileSize) \<and>
   chunkSize (uploadOptions env file_src fileSize) =
     (if 10 * 1024 * 1024 < fileSize then Some (10 * 1024 * 1024) else None) \<and>
   resumable (uploadOptions env file_src (12 * 1024 * 1024)) \<and>
   chunkSize (uploadOptions env file_src (12 * 1024 * 1024)) = Some (10 * 1024 * 1024)"
  by (simp add: worker_def uploadOptions_def Let_def)

section \<open>The queue: effects of the events\<close>

text \<open>\<open>process\<close> is unfolded by hand; \<open>process_eq\<close> gives its result in closed form: the
  first \<open>dispatch_count\<close> pending tasks are started.\<close>

declare process.simps [simp del]

lemma first_error_append:
  "first_error (xs @ ys) = (case first_error xs of Some e \<Rightarrow> Some e | None \<Rightarrow> first_error ys)"
  by (induction xs rule: first_error.induct) auto

lemma delays_of_append: "delays_of k (xs @ ys) = delays_of k xs @ delays_of k ys"
  by (induction k xs rule: delays_of.induct) auto

lemma callbacks_start_obs [simp]: "callbacks (concat (map (start_obs env cfg) xs)) = []"
  by (induction xs) (auto simp: start_obs_def)

lemma first_error_start_obs [simp]: "first_error (concat (map (start_obs env cfg) xs)) = None"
  by (induction xs) (auto simp: start_obs_def)

lemma delays_of_start_obs [simp]: "delays_of k (concat (map (start_obs env cfg) xs)) = []"
  by (induction xs) (auto simp: start_obs_def)

lemma dispatched_start_obs [simp]: "dispatched (concat (map (start_obs env cfg) xs)) = map tid xs"
  by (induction xs) (auto simp: start_obs_def)

lemma process_eq:
  "process env cfg s =
     s\<lparr>tasks_q := drop (dispatch_count s) (tasks_q s),
       inflight := inflight s @ take (dispatch_count s) (tasks_q s),
       trace := trace s @ concat (map (start_obs env cfg) (take (dispatch_count s) (tasks_q s)))\<rparr>"
proof (induction env cfg s rule: process.induct)
  case (1 env cfg s)
  show ?case
  proof (cases "tasks_q s")
    case Nil
    then show ?thesis
      by (subst process.simps) (simp add: dispatch_count_def)
  next
    case (Cons f rest)
    show ?thesis
    proof (cases "numRunning s < concurrency s")
      case False
      with Cons show ?thesis
        by (subst process.simps) (simp add: dispatch_count_def)
    next
      case True
      let ?s' = "worker env cfg f (s\<lparr>tasks_q := rest\<rparr>)"
      have n: "dispatch_count s = Suc (dispatch_count ?s')"
        using True Cons
        by (auto simp: dispatch_count_def worker_def numRunning_def Let_def min_def)
      have "process env cfg s = process env cfg ?s'"
        using True Cons by (subst process.simps) simp
      also have "\<dots> = ?s'\<lparr>tasks_q := drop (dispatch_count ?s') (tasks_q ?s'),
          inflight := inflight ?s' @ take (dispatch_count ?s') (tasks_q ?s'),
          trace := trace ?s' @
            concat (map (start_obs env cfg) (take (dispatch_count ?s') (tasks_q ?s')))\<rparr>"
        using "1.IH" [OF Cons True] .
      also have "\<dots> = s\<lparr>tasks_q := drop (dispatch_count s) (tasks_q s),
          inflight := inflight s @ take (dispatch_count s) (tasks_q s),
          trace := trace s @
            concat (map (start_obs env cfg) (take (dispatch_count s) (tasks_q s)))\<rparr>"
        unfolding n using Cons by (simp add: worker_def Let_def start_obs_def)
      finally show ?thesis .
    qed
  qed
qed

subsection \<open>What an event does\<close>

lemma step_Immediate:
  "step env cfg Immediate s = Some s' \<longleftrightarrow>
     processingScheduled s \<and> s' = process env cfg (s\<lparr>processingScheduled := False\<rparr>)"
  by (auto simp: step_def)

lemma step_Finish:
  "step env cfg (Finish k) s = Some s' \<Longrightarrow>
     (\<exists>before f after. inflight s = before @ f # after \<and> tid f = k \<and>
        (\<forall>u \<in> set before. tid u \<noteq> k) \<and>
        s' = on_finish env cfg f (s\<lparr>inflight := before @ after\<rparr>))"
  by (auto simp: step_def extract_Some_iff split: option.splits prod.splits)

lemma step_StreamError:
  "step env cfg (StreamError k msg) s = Some s' \<Longrightarrow>
     (\<exists>before f after. inflight s = before @ f # after \<and> tid f = k \<and>
        (\<forall>u \<in> set before. tid u \<noteq> k) \<and>
        s' = on_error env cfg f msg (s\<lparr>inflight := before @ after\<rparr>))"
  by (auto simp: step_def extract_Some_iff split: option.splits prod.splits)

lemma step_Timeout:
  "step env cfg (Timeout k) s = Some s' \<Longrightarrow>
     (\<exists>before f d after. backoff s = before @ (f, d) # after \<and> tid f = k \<and>
        (\<forall>u \<in> set before. tid (fst u) \<noteq> k) \<and>
        s' = on_timeout env cfg f (s\<lparr>backoff := before @ after\<rparr>))"
  by (fastforce simp: step_def extract_Some_iff split: option.splits prod.splits)

subsection \<open>Every sequence of events is finite\<close>






subsection \<open>The invariant of the callback\<close>

lemma idle_process [simp]: "idle (process env cfg s) = idle s"
  by (auto simp: process_eq idle_def numRunning_def dispatch_count_def)

lemma cb_inv_process: "cb_inv s \<Longrightarrow> cb_inv (process env cfg s)"
  unfolding cb_inv_def idle_process
  by (simp add: process_eq callbacks_append first_error_append split: option.splits)

lemma sched_inv_process: "sched_inv (process env cfg s)"
  by (auto simp: sched_inv_def process_eq numRunning_def dispatch_count_def min_def)

lemma cb_inv_done_cb:
  assumes "cb_pre s"
  shows "cb_inv (done_cb env cfg k err s)"
proof -
  let ?s1 = "s\<lparr>trace := trace s @ [WorkerDone k err]\<rparr>"
  let ?s2 = "errHandler err ?s1"
  let ?s3 = "if idle ?s2 then q_drain ?s2 else ?s2"
  have "cb_inv ?s3"
    using assms
    by (cases err)
      (auto simp: cb_pre_def cb_inv_def errHandler_def q_kill_def q_drain_def drain_handler_def
        Let_def callbacks_append first_error_append idle_def numRunning_def
        split: option.splits)
  then show ?thesis
    unfolding done_cb_def Let_def by (rule cb_inv_process)
qed

lemma sched_inv_done_cb: "sched_inv (done_cb env cfg k err s)"
  unfolding done_cb_def Let_def by (rule sched_inv_process)

lemma cb_pre_of_inv: "cb_inv s \<Longrightarrow> \<not> idle s \<Longrightarrow> cb_pre s"
  by (auto simp: cb_inv_def cb_pre_def split: option.splits)

lemma step_cb_inv:
  assumes "cb_inv s" and "sched_inv s" and "step env cfg ev s = Some s'"
  shows "cb_inv s' \<and> sched_inv s'"
proof (cases ev)
  case Immediate
  with assms(3) have s': "s' = process env cfg (s\<lparr>processingScheduled := False\<rparr>)"
    by (simp add: step_Immediate)
  have "cb_inv (s\<lparr>processingScheduled := False\<rparr>)"
    using assms(1) unfolding cb_inv_def idle_def numRunning_def by auto
  then show ?thesis
    unfolding s' by (simp add: cb_inv_process sched_inv_process)
next
  case (Finish k)
  with assms(3) obtain before f after where
    i: "inflight s = before @ f # after"
    and s': "s' = on_finish env cfg f (s\<lparr>inflight := before @ after\<rparr>)"
    by (auto dest: step_Finish)
  have "\<not> idle s" using i by (simp add: idle_def numRunning_def)
  with assms(1) have "cb_pre s" by (rule cb_pre_of_inv)
  then have "cb_pre (s\<lparr>inflight := before @ after,
      completedUploads := completedUploads s + 1,
      trace := trace s @ [Output (Uploaded (completedUploads s + 1) (totalFiles s)
        (path_basename env (dest f)) (statSync_size env (src f)))]\<rparr>)"
    by (simp add: cb_pre_def callbacks_append first_error_append split: option.splits)
  then show ?thesis
    unfolding s' on_finish_def Let_def
    by (simp add: cb_inv_done_cb sched_inv_done_cb)
next
  case (StreamError k msg)
  with assms(3) obtain before f after where
    i: "inflight s = before @ f # after"
    and s': "s' = on_error env cfg f msg (s\<lparr>inflight := before @ after\<rparr>)"
    by (auto dest: step_StreamError)
  have ni: "\<not> idle s" using i by (simp add: idle_def numRunning_def)
  with assms(1) have pre: "cb_pre s" by (rule cb_pre_of_inv)
  show ?thesis
  proof (cases "retries f < MAX_RETRIES")
    case True
    have "cb_inv s'"
      using assms(1) ni True i unfolding s'
      by (auto simp: on_error_def Let_def cb_inv_def idle_def numRunning_def callbacks_append
          first_error_append split: option.splits)
    moreover have "sched_inv s'"
      using assms(2) True i unfolding s'
      by (auto simp: on_error_def Let_def sched_inv_def numRunning_def)
    ultimately show ?thesis by simp
  next
    case False
    from pre have "cb_pre (s\<lparr>inflight := before @ after,
        trace := trace s @ [Log Debug (UploadErrorFor (path_basename env (dest f)) msg)]\<rparr>)"
      by (simp add: cb_pre_def callbacks_append first_error_append split: option.splits)
    with False show ?thesis
      unfolding s' on_error_def Let_def
      by (simp add: cb_inv_done_cb sched_inv_done_cb)
  qed
next
  case (Timeout k)
  with assms(3) obtain before f d after where
    i: "backoff s = before @ (f, d) # after"
    and s': "s' = on_timeout env cfg f (s\<lparr>backoff := before @ after\<rparr>)"
    by (auto dest: step_Timeout)
  have "\<not> idle s" using i by (simp add: idle_def numRunning_def)
  with assms(1) have "cb_pre s" by (rule cb_pre_of_inv)
  then have "cb_pre (q_push [f] (s\<lparr>backoff := before @ after\<rparr>))"
    by (simp add: cb_pre_def q_push_def)
  then show ?thesis
    unfolding s' on_timeout_def
    by (simp add: cb_inv_done_cb sched_inv_done_cb)
qed

lemma run_cb_inv:
  "cb_inv s \<Longrightarrow> sched_inv s \<Longrightarrow> run env cfg evs s = Some s' \<Longrightarrow> cb_inv s' \<and> sched_inv s'"
proof (induction evs arbitrary: s)
  case Nil
  then show ?case by simp
next
  case (Cons ev evs)
  from Cons.prems(3) obtain s1 where
    st: "step env cfg ev s = Some s1" and r: "run env cfg evs s1 = Some s'"
    by (auto split: option.splits)
  from step_cb_inv [OF Cons.prems(1,2) st] Cons.IH [OF _ _ r] show ?case by blast
qed


subsection \<open>The invariant of the tasks\<close>

lemma live_tasks_process_set: "set (live_tasks (process env cfg s)) = set (live_tasks s)"
proof -
  have "set (tasks_q s) = set (take (dispatch_count s) (tasks_q s)) \<union>
          set (drop (dispatch_count s) (tasks_q s))"
    by (metis append_take_drop_id set_append)
  then show ?thesis
    by (auto simp: process_eq live_tasks_def)
qed

lemma live_tasks_process_distinct:
  "distinct (map tid (live_tasks (process env cfg s))) = distinct (map tid (live_tasks s))"
proof -
  let ?n = "dispatch_count s"
  have "distinct (map tid (live_tasks s)) =
        distinct (map tid ((take ?n (tasks_q s) @ drop ?n (tasks_q s)) @ inflight s @
                    map fst (backoff s)))"
    by (simp add: live_tasks_def)
  also have "\<dots> = distinct (map tid (live_tasks (process env cfg s)))"
    unfolding process_eq live_tasks_def by (simp del: append_take_drop_id) blast
  finally show ?thesis by simp
qed

lemma task_inv_process: "task_inv ul s \<Longrightarrow> task_inv ul (process env cfg s)"
  unfolding task_inv_def live_tasks_process_set live_tasks_process_distinct
  apply (simp add: process_eq delays_of_append dispatched_append)
  apply (auto dest: in_set_takeD)
  done

lemma task_inv_done_cb:
  assumes "task_inv ul s"
  shows "task_inv ul (done_cb env cfg k err s)"
proof -
  let ?s1 = "s\<lparr>trace := trace s @ [WorkerDone k err]\<rparr>"
  let ?s2 = "errHandler err ?s1"
  let ?s3 = "if idle ?s2 then q_drain ?s2 else ?s2"
  have "task_inv ul ?s3"
    using assms
    by (cases err)
      (auto simp: task_inv_def live_tasks_def errHandler_def q_kill_def q_drain_def
        drain_handler_def Let_def delays_of_append dispatched_append)
  then show ?thesis
    unfolding done_cb_def Let_def by (rule task_inv_process)
qed

lemma backoff_delays_Suc:
  "backoff_delays (Suc r) = backoff_delays r @ [2 ^ Suc r * 1000]"
  by (simp add: backoff_delays_def)

lemma step_task_inv:
  assumes "task_inv ul s" and "step env cfg ev s = Some s'"
  shows "task_inv ul s'"
proof (cases ev)
  case Immediate
  with assms(2) have s': "s' = process env cfg (s\<lparr>processingScheduled := False\<rparr>)"
    by (simp add: step_Immediate)
  have "task_inv ul (s\<lparr>processingScheduled := False\<rparr>)"
    using assms(1) by (simp add: task_inv_def live_tasks_def)
  then show ?thesis
    unfolding s' by (rule task_inv_process)
next
  case (Finish k)
  with assms(2) obtain before f after where
    i: "inflight s = before @ f # after"
    and s': "s' = on_finish env cfg f (s\<lparr>inflight := before @ after\<rparr>)"
    by (auto dest: step_Finish)
  have "task_inv ul (s\<lparr>inflight := before @ after,
      completedUploads := completedUploads s + 1,
      trace := trace s @ [Output (Uploaded (completedUploads s + 1) (totalFiles s)
        (path_basename env (dest f)) (statSync_size env (src f)))]\<rparr>)"
    using assms(1) i
    by (auto simp: task_inv_def live_tasks_def delays_of_append dispatched_append)
  then show ?thesis
    unfolding s' on_finish_def Let_def by (simp add: task_inv_done_cb)
next
  case (StreamError k msg)
  with assms(2) obtain before f after where
    i: "inflight s = before @ f # after"
    and s': "s' = on_error env cfg f msg (s\<lparr>inflight := before @ after\<rparr>)"
    by (auto dest: step_StreamError)
  show ?thesis
  proof (cases "retries f < MAX_RETRIES")
    case True
    let ?f' = "f\<lparr>retries := retries f + 1\<rparr>"
    let ?d = "2 ^ (retries f + 1) * 1000 :: nat"
    let ?ext = "[Log Debug (UploadErrorFor (path_basename env (dest f)) msg),
                 Output (Retrying (path_basename env (dest f)) (retries f + 1) MAX_RETRIES
                           (?d div 1000)),
                 SetTimeout (tid f) ?d]"
    have s'_eq: "s' = s\<lparr>inflight := before @ after,
                         backoff := backoff s @ [(?f', ?d)],
                         trace := trace s @ ?ext\<rparr>"
      unfolding s' using True by (simp add: on_error_def Let_def)
    have d: "distinct (map tid (live_tasks s))"
      and f: "retries f \<le> MAX_RETRIES" "delays_of (tid f) (trace s) = backoff_delays (retries f)"
        "\<exists>t0 \<in> set ul. f = t0\<lparr>retries := retries f\<rparr>"
      and others: "\<forall>t \<in> set (live_tasks s).
         retries t \<le> MAX_RETRIES \<and> delays_of (tid t) (trace s) = backoff_delays (retries t) \<and>
         (\<exists>t0 \<in> set ul. t = t0\<lparr>retries := retries t\<rparr>)"
      and started: "\<forall>t \<in> set (inflight s) \<union> fst ` set (backoff s).
         tid t \<in> set (dispatched (trace s))"
      using assms(1) i by (auto simp: task_inv_def live_tasks_def)
    have live': "live_tasks s' = tasks_q s @ (before @ after) @ map fst (backoff s) @ [?f']"
      by (simp add: s'_eq live_tasks_def)
    have ne: "\<forall>t \<in> set (tasks_q s @ (before @ after) @ map fst (backoff s)). tid t \<noteq> tid f"
      using d i by (auto simp: live_tasks_def image_iff)
    have 1: "distinct (map tid (live_tasks s'))"
      unfolding live' using d i ne by (auto simp: live_tasks_def)
    have 2: "\<forall>t \<in> set (live_tasks s').
         retries t \<le> MAX_RETRIES \<and> delays_of (tid t) (trace s') = backoff_delays (retries t) \<and>
         (\<exists>t0 \<in> set ul. t = t0\<lparr>retries := retries t\<rparr>)"
    proof
      fix t assume t: "t \<in> set (live_tasks s')"
      show "retries t \<le> MAX_RETRIES \<and> delays_of (tid t) (trace s') = backoff_delays (retries t) \<and>
         (\<exists>t0 \<in> set ul. t = t0\<lparr>retries := retries t\<rparr>)"
      proof (cases "t = ?f'")
        case True': True
        have "\<exists>t0 \<in> set ul. ?f' = t0\<lparr>retries := retries ?f'\<rparr>"
          using f(3) by (metis task.surjective task.update_convs(5))
        then show ?thesis
          using True True' f
          by (simp add: s'_eq delays_of_append backoff_delays_Suc)
      next
        case False
        with t have t_old: "t \<in> set (tasks_q s @ (before @ after) @ map fst (backoff s))"
          unfolding live' by auto
        then have "t \<in> set (live_tasks s)" using i by (auto simp: live_tasks_def)
        with others have "retries t \<le> MAX_RETRIES"
          "delays_of (tid t) (trace s) = backoff_delays (retries t)"
          "\<exists>t0 \<in> set ul. t = t0\<lparr>retries := retries t\<rparr>"
          by auto
        moreover have "tid t \<noteq> tid f" using ne t_old by blast
        ultimately show ?thesis
          by (simp add: s'_eq delays_of_append)
      qed
    qed
    have 3: "\<forall>t \<in> set (inflight s') \<union> fst ` set (backoff s').
         tid t \<in> set (dispatched (trace s'))"
      using started i by (auto simp: s'_eq dispatched_append)
    from 1 2 3 show ?thesis
      unfolding task_inv_def by blast
  next
    case False
    have "task_inv ul (s\<lparr>inflight := before @ after,
        trace := trace s @ [Log Debug (UploadErrorFor (path_basename env (dest f)) msg)]\<rparr>)"
      using assms(1) i
      by (auto simp: task_inv_def live_tasks_def delays_of_append dispatched_append)
    with False show ?thesis
      unfolding s' on_error_def Let_def by (simp add: task_inv_done_cb)
  qed
next
  case (Timeout k)
  with assms(2) obtain before f d after where
    i: "backoff s = before @ (f, d) # after"
    and s': "s' = on_timeout env cfg f (s\<lparr>backoff := before @ after\<rparr>)"
    by (auto dest: step_Timeout)
  have "task_inv ul (q_push [f] (s\<lparr>backoff := before @ after\<rparr>))"
    using assms(1) i
    by (auto simp: task_inv_def live_tasks_def q_push_def)
  then show ?thesis
    unfolding s' on_timeout_def by (rule task_inv_done_cb)
qed

subsection \<open>No task is added\<close>

lemma evolves_trans: "evolves D s s1 \<Longrightarrow> evolves D s1 s2 \<Longrightarrow> evolves D s s2"
  by (auto simp: evolves_def dispatched_append)

lemma evolves_live: "evolves D s s' \<Longrightarrow> tid ` set (live_tasks s') \<subseteq> D"
  by (simp add: evolves_def)

lemma process_evolves:
  assumes "tid ` set (live_tasks s) \<subseteq> D"
  shows "evolves D s (process env cfg s)"
proof -
  have "tid ` set (take (dispatch_count s) (tasks_q s)) \<subseteq> D"
    using assms by (auto simp: live_tasks_def dest: in_set_takeD)
  then show ?thesis
    unfolding evolves_def live_tasks_process_set
    using assms by (simp add: process_eq)
qed

lemma done_cb_evolves:
  assumes "tid ` set (live_tasks s) \<subseteq> D"
  shows "evolves D s (done_cb env cfg k err s)"
proof -
  let ?s1 = "s\<lparr>trace := trace s @ [WorkerDone k err]\<rparr>"
  let ?s2 = "errHandler err ?s1"
  let ?s3 = "if idle ?s2 then q_drain ?s2 else ?s2"
  have "evolves D s ?s3"
    using assms
    by (cases err)
      (auto simp: evolves_def live_tasks_def errHandler_def q_kill_def q_drain_def
        drain_handler_def Let_def)
  moreover from this have "evolves D ?s3 (process env cfg ?s3)"
    by (intro process_evolves evolves_live)
  ultimately show ?thesis
    unfolding done_cb_def Let_def by (rule evolves_trans)
qed

lemma evolves_start:
  assumes "tid ` set (live_tasks s1) \<subseteq> D"
    and "\<exists>ext. trace s1 = trace s @ ext \<and> dispatched ext = []"
    and "evolves D s1 s'"
  shows "evolves D s s'"
  using assms by (auto simp: evolves_def dispatched_append)

lemma step_evolves:
  assumes "tid ` set (live_tasks s) \<subseteq> D" and "step env cfg ev s = Some s'"
  shows "evolves D s s'"
proof (cases ev)
  case Immediate
  with assms(2) have s': "s' = process env cfg (s\<lparr>processingScheduled := False\<rparr>)"
    by (simp add: step_Immediate)
  let ?s1 = "s\<lparr>processingScheduled := False\<rparr>"
  have l: "tid ` set (live_tasks ?s1) \<subseteq> D"
    using assms(1) by (simp add: live_tasks_def)
  show ?thesis
    unfolding s'
    by (rule evolves_start [OF l _ process_evolves [OF l]]) simp
next
  case (Finish k)
  with assms(2) obtain before f after where
    i: "inflight s = before @ f # after"
    and s': "s' = on_finish env cfg f (s\<lparr>inflight := before @ after\<rparr>)"
    by (auto dest: step_Finish)
  let ?s1 = "s\<lparr>inflight := before @ after,
      completedUploads := completedUploads s + 1,
      trace := trace s @ [Output (Uploaded (completedUploads s + 1) (totalFiles s)
        (path_basename env (dest f)) (statSync_size env (src f)))]\<rparr>"
  have l: "tid ` set (live_tasks ?s1) \<subseteq> D"
    using assms(1) i by (auto simp: live_tasks_def)
  have "evolves D s (done_cb env cfg (tid f) None ?s1)"
    by (rule evolves_start [OF l _ done_cb_evolves [OF l]]) simp
  then show ?thesis
    unfolding s' on_finish_def Let_def by simp
next
  case (StreamError k msg)
  with assms(2) obtain before f after where
    i: "inflight s = before @ f # after"
    and s': "s' = on_error env cfg f msg (s\<lparr>inflight := before @ after\<rparr>)"
    by (auto dest: step_StreamError)
  show ?thesis
  proof (cases "retries f < MAX_RETRIES")
    case True
    then show ?thesis
      unfolding s' using assms(1) i
      by (auto simp: on_error_def Let_def evolves_def live_tasks_def)
  next
    case False
    let ?s1 = "s\<lparr>inflight := before @ after,
        trace := trace s @ [Log Debug (UploadErrorFor (path_basename env (dest f)) msg)]\<rparr>"
    have l: "tid ` set (live_tasks ?s1) \<subseteq> D"
      using assms(1) i by (auto simp: live_tasks_def)
    have "evolves D s (done_cb env cfg (tid f)
            (Some (FailedToUpload (path_basename env (dest f)) MAX_RETRIES msg)) ?s1)"
      by (rule evolves_start [OF l _ done_cb_evolves [OF l]]) simp
    with False show ?thesis
      unfolding s' on_error_def Let_def by simp
  qed
next
  case (Timeout k)
  with assms(2) obtain before f d after where
    i: "backoff s = before @ (f, d) # after"
    and s': "s' = on_timeout env cfg f (s\<lparr>backoff := before @ after\<rparr>)"
    by (auto dest: step_Timeout)
  let ?s1 = "q_push [f] (s\<lparr>backoff := before @ after\<rparr>)"
  have l: "tid ` set (live_tasks ?s1) \<subseteq> D"
    using assms(1) i by (auto simp: live_tasks_def q_push_def)
  show ?thesis
    unfolding s' on_timeout_def
    by (rule evolves_start [OF l _ done_cb_evolves [OF l]]) (simp add: q_push_def)
qed

lemma run_evolves:
  "tid ` set (live_tasks s) \<subseteq> D \<Longrightarrow> run env cfg evs s = Some s' \<Longrightarrow> evolves D s s'"
proof (induction evs arbitrary: s)
  case Nil
  then show ?case by (simp add: evolves_def)
next
  case (Cons ev evs)
  from Cons.prems(2) obtain s1 where
    st: "step env cfg ev s = Some s1" and r: "run env cfg evs s1 = Some s'"
    by (auto split: option.splits)
  have e1: "evolves D s s1" using Cons.prems(1) st by (rule step_evolves)
  from Cons.IH [OF evolves_live [OF e1] r] e1 show ?case
    using evolves_trans by blast
qed

lemma run_task_inv:
  "task_inv ul s \<Longrightarrow> run env cfg evs s = Some s' \<Longrightarrow> task_inv ul s'"
proof (induction evs arbitrary: s)
  case Nil
  then show ?case by simp
next
  case (Cons ev evs)
  from Cons.prems(2) obtain s1 where
    st: "step env cfg ev s = Some s1" and r: "run env cfg evs s1 = Some s'"
    by (auto split: option.splits)
  from Cons.IH [OF step_task_inv [OF Cons.prems(1) st] r] show ?case .
qed

subsection \<open>The queued pool and the states it reaches\<close>

lemma first_error_skip_logs [simp]: "first_error (skip_logs env s paths) = None"
  by (induction paths) (auto simp: skip_logs_def)

lemma delays_of_skip_logs [simp]: "delays_of k (skip_logs env s paths) = []"
  by (induction paths) (auto simp: skip_logs_def)

lemma tasks_from_Nil_iff [simp]: "tasks_from env s d n xs = [] \<longleftrightarrow> xs = []"
  by (cases xs) auto

lemma uploadPaths_Queued:
  assumes "uploadPaths env m cfg srcFolder bucketName dstFolder paths = Queued p"
  shows "concat (map (expected_paths env srcFolder) paths) \<noteq> [] \<and>
         p = \<lparr>concurrency = PARALLEL_UPLOADS cfg,
              totalFiles = length (concat (map (expected_paths env srcFolder) paths)),
              tasks_q = tasks_from env srcFolder dstFolder 0
                          (concat (map (expected_paths env srcFolder) paths)),
              inflight = [],
              backoff = [],
              processingScheduled = True,
              drain_set = True,
              completedUploads = 0,
              cbCalled = False,
              trace = skip_logs env srcFolder paths @
                        [Output (UploadingFiles
                                   (length (concat (map (expected_paths env srcFolder) paths)))
                                   (gcsBucket cfg))]\<rparr>"
proof (cases "first_fs_error env srcFolder paths")
  case None
  from buildUploadList_ok [OF None, of dstFolder "[]" "[]"] assms show ?thesis
    by (auto simp: uploadPaths_def q_push_def Let_def split: if_splits)
next
  case (Some e)
  from buildUploadList_throws [OF Some, of dstFolder "[]" "[]"] assms show ?thesis
    by (auto simp: uploadPaths_def split: if_splits)
qed

lemma uploadPaths_Queued_inv:
  assumes "uploadPaths env m cfg srcFolder bucketName dstFolder paths = Queued p"
  shows "cb_inv p \<and> sched_inv p \<and> task_inv (tasks_q p) p"
proof -
  let ?rps = "concat (map (expected_paths env srcFolder) paths)"
  from uploadPaths_Queued [OF assms] have
    ne: "?rps \<noteq> []" and
    p: "p = \<lparr>concurrency = PARALLEL_UPLOADS cfg,
                totalFiles = length ?rps,
                tasks_q = tasks_from env srcFolder dstFolder 0 ?rps,
                inflight = [],
                backoff = [],
                processingScheduled = True,
                drain_set = True,
                completedUploads = 0,
                cbCalled = False,
                trace = skip_logs env srcFolder paths @
                          [Output (UploadingFiles (length ?rps) (gcsBucket cfg))]\<rparr>"
    by blast+
  have 1: "cb_inv p"
    using ne by (simp add: p cb_inv_def PARALLEL_UPLOADS_def callbacks_append first_error_append
        idle_def)
  have 2: "sched_inv p"
    by (simp add: p sched_inv_def)
  have 3: "task_inv (tasks_q p) p"
    unfolding task_inv_def
  proof (intro conjI ballI)
    show "distinct (map tid (live_tasks p))"
      by (simp add: p live_tasks_def)
  next
    fix t assume "t \<in> set (live_tasks p)"
    then have t: "t \<in> set (tasks_from env srcFolder dstFolder 0 ?rps)"
      by (simp add: p live_tasks_def)
    then have r0: "retries t = 0" using fields_tasks_from by blast
    then show "retries t \<le> MAX_RETRIES" by simp
    show "delays_of (tid t) (trace p) = backoff_delays (retries t)"
      using r0 by (simp add: p delays_of_append backoff_delays_def)
    have "t = t\<lparr>retries := retries t\<rparr>" by simp
    with t show "\<exists>t0 \<in> set (tasks_q p). t = t0\<lparr>retries := retries t\<rparr>"
      unfolding p by (intro bexI [of _ t]) simp_all
  next
    fix t assume "t \<in> set (inflight p) \<union> fst ` set (backoff p)"
    then show "tid t \<in> set (dispatched (trace p))"
      by (simp add: p)
  qed
  from 1 2 3 show ?thesis by simp
qed

lemma extract_by_tid:
  assumes "distinct (map tid xs)" and "t \<in> set xs"
  shows "\<exists>b a. xs = b @ t # a \<and> List.extract (\<lambda>u. tid u = tid t) xs = Some (b, t, a) \<and>
           b @ a = remove1 t xs \<and> tid t \<notin> tid ` set (b @ a)"
proof -
  from assms(2) obtain b a where xs: "xs = b @ t # a"
    by (auto dest: split_list)
  with assms(1) have nb: "tid t \<notin> tid ` set b" and na: "tid t \<notin> tid ` set a"
    by auto
  then have "t \<notin> set b" by auto
  then have "remove1 t xs = b @ a"
    unfolding xs by (simp add: remove1_append)
  moreover have "List.extract (\<lambda>u. tid u = tid t) xs = Some (b, t, a)"
    unfolding xs extract_Some_iff using nb by (auto simp: image_iff)
  ultimately show ?thesis using xs nb na by auto
qed


lemma reachable_inv:
  assumes "uploadPaths env m cfg srcFolder bucketName dstFolder paths = Queued p"
    and "run env cfg evs p = Some s"
  shows "cb_inv s" and "sched_inv s" and "task_inv (tasks_q p) s"
proof -
  from uploadPaths_Queued_inv [OF assms(1)]
  have "cb_inv p" "sched_inv p" "task_inv (tasks_q p) p" by simp_all
  from run_cb_inv [OF this(1,2) assms(2)] run_task_inv [OF this(3) assms(2)]
  show "cb_inv s" and "sched_inv s" and "task_inv (tasks_q p) s" by simp_all
qed




subsection \<open>Concrete runs\<close>

text \<open>The definitions that a concrete run unfolds, and the run \<open>demo_events\<close>.\<close>

lemmas pool_eval =
  uploadPaths_def demo_env_def demo_module_def demo_config_def demo_join_def demo_basename_def
  demo_extname_def q_push_def PARALLEL_UPLOADS_def step_def process.simps worker_def
  numRunning_def on_finish_def on_error_def on_timeout_def done_cb_def errHandler_def
  q_kill_def q_drain_def drain_handler_def idle_def Let_def extract_Cons_code extract_Nil_code
  MAX_RETRIES_def quiescent_def push_task_def

lemma demo_run:
  "\<exists>p tr. uploadPaths demo_env demo_module demo_config ''/data'' ''bkt'' ''out'' [''a.tif'', ''d'']
             = Queued p \<and>
           run demo_env demo_config demo_events p =
             Some \<lparr>concurrency = 2, totalFiles = 3, tasks_q = [],
                   inflight = [demo_task2, demo_task0], backoff = [],
                   processingScheduled = True, drain_set = True, completedUploads = 1,
                   cbCalled = False, trace = tr\<rparr> \<and>
           first_error tr = None \<and>
           dispatched tr = [0, 1, 2, 0, 0, 0, 0, 0]"
  by (simp add: pool_eval demo_events_def demo_task0_def demo_task2_def)

subsection \<open>The completion callback\<close>



section \<open>Retries and abort\<close>

text \<open>The effect of the \<^verbatim>\<open>'error'\<close> event on a task that is in flight.\<close>

lemma step_StreamError_inflight:
  assumes "task_inv ul s" and "t \<in> set (inflight s)"
  shows "step env cfg (StreamError (tid t) msg) s =
           Some (on_error env cfg t msg (s\<lparr>inflight := remove1 t (inflight s)\<rparr>)) \<and>
         tid t \<notin> tid ` set (tasks_q s @ remove1 t (inflight s) @ map fst (backoff s))"
proof -
  have d: "distinct (map tid (tasks_q s @ inflight s @ map fst (backoff s)))"
    using assms(1) by (simp add: task_inv_def live_tasks_def)
  then have "distinct (map tid (inflight s))" by simp
  from extract_by_tid [OF this assms(2)] obtain b a where
    i: "inflight s = b @ t # a"
    and e: "List.extract (\<lambda>u. tid u = tid t) (inflight s) = Some (b, t, a)"
    and r: "b @ a = remove1 t (inflight s)"
    and n: "tid t \<notin> tid ` set (b @ a)"
    by blast
  have "tid t \<notin> tid ` set (tasks_q s)" "tid t \<notin> tid ` set (map fst (backoff s))"
    using d i by (auto simp: image_iff)
  with n r e show ?thesis
    by (auto simp: step_def)
qed

lemma fatal_error_state:
  assumes "\<not> retries t < MAX_RETRIES" and "cb_pre s"
    and "first_error (trace s) = None"
  shows "on_error env cfg t msg s =
           s\<lparr>tasks_q := [], drain_set := False, cbCalled := True,
             trace := trace s @
               [Log Debug (UploadErrorFor (path_basename env (dest t)) msg),
                WorkerDone (tid t)
                  (Some (FailedToUpload (path_basename env (dest t)) MAX_RETRIES msg)),
                Callback (Some (FailedToUpload (path_basename env (dest t)) MAX_RETRIES msg))]\<rparr>"
proof -
  have "\<not> cbCalled s"
    using assms(2,3) by (simp add: cb_pre_def)
  then show ?thesis
    using assms(1)
    by (simp add: on_error_def done_cb_def errHandler_def q_kill_def q_drain_def Let_def
        process_eq dispatch_count_def)
qed

lemma fatal_step:
  assumes inv: "cb_inv s" "task_inv ul s"
    and t: "t \<in> set (inflight s)" "\<not> retries t < MAX_RETRIES"
    and fe: "first_error (trace s) = None"
  shows "step env cfg (StreamError (tid t) msg) s =
           Some (s\<lparr>inflight := remove1 t (inflight s),
                   tasks_q := [], drain_set := False, cbCalled := True,
                   trace := trace s @
                     [Log Debug (UploadErrorFor (path_basename env (dest t)) msg),
                      WorkerDone (tid t)
                        (Some (FailedToUpload (path_basename env (dest t)) MAX_RETRIES msg)),
                      Callback
                        (Some (FailedToUpload (path_basename env (dest t)) MAX_RETRIES msg))]\<rparr>)"
proof -
  have "\<not> idle s" using t(1) by (auto simp: idle_def numRunning_def)
  with inv(1) have "cb_pre s" by (rule cb_pre_of_inv)
  then have pre: "cb_pre (s\<lparr>inflight := remove1 t (inflight s)\<rparr>)"
    by (simp add: cb_pre_def)
  have "first_error (trace (s\<lparr>inflight := remove1 t (inflight s)\<rparr>)) = None"
    using fe by simp
  from fatal_error_state [OF t(2) pre this, where env = env and msg = msg]
    step_StreamError_inflight [OF inv(2) t(1), where env = env and cfg = cfg and msg = msg]
  show ?thesis by simp
qed

lemma retry_step:
  assumes "task_inv ul s" and "t \<in> set (inflight s)" and "retries t < MAX_RETRIES"
  shows "step env cfg (StreamError (tid t) msg) s =
           Some (s\<lparr>inflight := remove1 t (inflight s),
                   backoff := backoff s @
                     [(t\<lparr>retries := retries t + 1\<rparr>, 2 ^ (retries t + 1) * 1000)],
                   trace := trace s @
                     [Log Debug (UploadErrorFor (path_basename env (dest t)) msg),
                      Output (Retrying (path_basename env (dest t)) (retries t + 1) MAX_RETRIES
                                (2 ^ (retries t + 1))),
                      SetTimeout (tid t) (2 ^ (retries t + 1) * 1000)]\<rparr>)"
  using step_StreamError_inflight [OF assms(1,2), where env = env and cfg = cfg and msg = msg]
    assms(3)
  by (simp add: on_error_def Let_def)

lemma done_cb_trace:
  "\<exists>ext. trace (done_cb env cfg k err s) = trace s @ WorkerDone k err # ext"
  by (cases err)
    (auto simp: done_cb_def Let_def errHandler_def q_kill_def q_drain_def drain_handler_def
      process_eq)

lemma done_cb_requeued:
  assumes "tasks_q s \<noteq> []"
  shows "done_cb env cfg k None s = process env cfg (s\<lparr>trace := trace s @ [WorkerDone k None]\<rparr>)"
  using assms by (simp add: done_cb_def Let_def errHandler_def idle_def)

lemma pending_or_inflight_process:
  "set (tasks_q (process env cfg s) @ inflight (process env cfg s)) =
     set (tasks_q s @ inflight s)"
proof -
  have "set (tasks_q s) = set (take (dispatch_count s) (tasks_q s)) \<union>
          set (drop (dispatch_count s) (tasks_q s))"
    by (metis append_take_drop_id set_append)
  then show ?thesis
    by (auto simp: process_eq)
qed

lemma timeout_step:
  assumes "tid t \<notin> tid ` fst ` set (backoff s)"
  shows "\<exists>s2. step env cfg (Timeout (tid t)) (s\<lparr>backoff := backoff s @ [(t, d)]\<rparr>) = Some s2 \<and>
           t \<in> set (tasks_q s2 @ inflight s2) \<and>
           callbacks (trace s2) = callbacks (trace s) \<and>
           backoff s2 = backoff s"
proof -
  have "List.extract (\<lambda>td. tid (fst td) = tid t) (backoff s @ [(t, d)]) =
          Some (backoff s, (t, d), [])"
    unfolding extract_Some_iff using assms by (auto simp: image_iff)
  then have st: "step env cfg (Timeout (tid t)) (s\<lparr>backoff := backoff s @ [(t, d)]\<rparr>) =
      Some (process env cfg (s\<lparr>tasks_q := tasks_q s @ [t], processingScheduled := True,
                                 trace := trace s @ [WorkerDone (tid t) None]\<rparr>))"
    by (simp add: step_def on_timeout_def q_push_def done_cb_requeued)
  let ?s' = "s\<lparr>tasks_q := tasks_q s @ [t], processingScheduled := True,
               trace := trace s @ [WorkerDone (tid t) None]\<rparr>"
  have "t \<in> set (tasks_q (process env cfg ?s') @ inflight (process env cfg ?s'))"
    unfolding pending_or_inflight_process by simp
  moreover have "callbacks (trace (process env cfg ?s')) = callbacks (trace s)"
    by (simp add: process_eq callbacks_append)
  moreover have "backoff (process env cfg ?s') = backoff s"
    by (simp add: process_eq)
  ultimately show ?thesis using st by simp
qed

lemma backoff_delays_5: "backoff_delays 5 = [2000, 4000, 8000, 16000, 32000]"
  by (simp add: backoff_delays_def upt_rec)

text \<open>
  Claim C2.  Let a task be in flight in a reachable state, and let its transfer fail; the
  task is one of the upload list, up to its retry count.  With fewer than \<^verbatim>\<open>MAX_RETRIES\<close>
  (5) retries, the retry count is incremented, a timer of \<open>2 ^ retries\<close> seconds (with the
  new count) is set and reported, and the worker keeps its slot; when the timer expires
  the task is pushed on the queue again (it is pending or started afterwards); neither
  event calls the completion callback.  With the retries exhausted, the task has waited
  2, 4, 8, 16 and 32 seconds before its attempts, the worker ends with the error that
  names the file and the number of retries, and that error is given to the completion
  callback when no worker has given up before.
\<close>

theorem retry_backoff_schedule:
  assumes "uploadPaths env m cfg srcFolder bucketName dstFolder paths = Queued p"
    and "run env cfg evs p = Some s"
    and "t \<in> set (inflight s)"
  shows "(\<exists>t0 \<in> set (tasks_q p). t = t0\<lparr>retries := retries t\<rparr>) \<and>
         (retries t < MAX_RETRIES \<longrightarrow>
            (\<exists>s1. step env cfg (StreamError (tid t) msg) s = Some s1 \<and>
                  inflight s1 = remove1 t (inflight s) \<and>
                  tasks_q s1 = tasks_q s \<and>
                  backoff s1 = backoff s @
                    [(t\<lparr>retries := retries t + 1\<rparr>, 2 ^ (retries t + 1) * 1000)] \<and>
                  trace s1 = trace s @
                    [Log Debug (UploadErrorFor (path_basename env (dest t)) msg),
                     Output (Retrying (path_basename env (dest t)) (retries t + 1) MAX_RETRIES
                               (2 ^ (retries t + 1))),
                     SetTimeout (tid t) (2 ^ (retries t + 1) * 1000)] \<and>
                  (\<exists>s2. step env cfg (Timeout (tid t)) s1 = Some s2 \<and>
                        t\<lparr>retries := retries t + 1\<rparr> \<in> set (tasks_q s2 @ inflight s2) \<and>
                        callbacks (trace s2) = callbacks (trace s)))) \<and>
         (\<not> retries t < MAX_RETRIES \<longrightarrow>
            delays_of (tid t) (trace s) = [2000, 4000, 8000, 16000, 32000] \<and>
            (\<exists>s1 ext. step env cfg (StreamError (tid t) msg) s = Some s1 \<and>
                  trace s1 = trace s @
                    Log Debug (UploadErrorFor (path_basename env (dest t)) msg) #
                    WorkerDone (tid t)
                      (Some (FailedToUpload (path_basename env (dest t)) MAX_RETRIES msg)) # ext \<and>
                  first_error (trace s1) \<noteq> None \<and>
                  (first_error (trace s) = None \<longrightarrow>
                     callbacks (trace s1) =
                       [Some (FailedToUpload (path_basename env (dest t)) MAX_RETRIES msg)])))"
proof -
  have inv: "cb_inv s" "sched_inv s" "task_inv (tasks_q p) s"
    using reachable_inv [OF assms(1,2)] by simp_all
  have tl: "t \<in> set (live_tasks s)"
    using assms(3) by (simp add: live_tasks_def)
  with inv(3) have bound: "retries t \<le> MAX_RETRIES"
    and del: "delays_of (tid t) (trace s) = backoff_delays (retries t)"
    and orig: "\<exists>t0 \<in> set (tasks_q p). t = t0\<lparr>retries := retries t\<rparr>"
    by (simp_all add: task_inv_def)
  have retry: "\<exists>s1. step env cfg (StreamError (tid t) msg) s = Some s1 \<and>
                  inflight s1 = remove1 t (inflight s) \<and>
                  tasks_q s1 = tasks_q s \<and>
                  backoff s1 = backoff s @
                    [(t\<lparr>retries := retries t + 1\<rparr>, 2 ^ (retries t + 1) * 1000)] \<and>
                  trace s1 = trace s @
                    [Log Debug (UploadErrorFor (path_basename env (dest t)) msg),
                     Output (Retrying (path_basename env (dest t)) (retries t + 1) MAX_RETRIES
                               (2 ^ (retries t + 1))),
                     SetTimeout (tid t) (2 ^ (retries t + 1) * 1000)] \<and>
                  (\<exists>s2. step env cfg (Timeout (tid t)) s1 = Some s2 \<and>
                        t\<lparr>retries := retries t + 1\<rparr> \<in> set (tasks_q s2 @ inflight s2) \<and>
                        callbacks (trace s2) = callbacks (trace s))"
    if lt: "retries t < MAX_RETRIES"
  proof -
    let ?t' = "t\<lparr>retries := retries t + 1\<rparr>"
    let ?d = "2 ^ (retries t + 1) * 1000 :: nat"
    let ?tr = "trace s @
                    [Log Debug (UploadErrorFor (path_basename env (dest t)) msg),
                     Output (Retrying (path_basename env (dest t)) (retries t + 1) MAX_RETRIES
                               (2 ^ (retries t + 1))),
                     SetTimeout (tid t) ?d]"
    let ?s0 = "s\<lparr>inflight := remove1 t (inflight s), trace := ?tr\<rparr>"
    have st: "step env cfg (StreamError (tid t) msg) s =
                Some (?s0\<lparr>backoff := backoff ?s0 @ [(?t', ?d)]\<rparr>)"
      using retry_step [OF inv(3) assms(3) lt, where env = env and cfg = cfg and msg = msg]
      by simp
    have "tid t \<notin> tid ` set (tasks_q s @ remove1 t (inflight s) @ map fst (backoff s))"
      using step_StreamError_inflight [OF inv(3) assms(3)] by simp
    then have "tid ?t' \<notin> tid ` fst ` set (backoff ?s0)"
      by (auto simp: image_iff)
    from timeout_step [OF this, where env = env and cfg = cfg and d = ?d]
    obtain s2 where
      "step env cfg (Timeout (tid t)) (?s0\<lparr>backoff := backoff ?s0 @ [(?t', ?d)]\<rparr>) = Some s2"
      "?t' \<in> set (tasks_q s2 @ inflight s2)"
      "callbacks (trace s2) = callbacks (trace s)"
      by (auto simp: callbacks_append)
    with st show ?thesis by simp
  qed
  have fatal: "delays_of (tid t) (trace s) = [2000, 4000, 8000, 16000, 32000] \<and>
            (\<exists>s1 ext. step env cfg (StreamError (tid t) msg) s = Some s1 \<and>
                  trace s1 = trace s @
                    Log Debug (UploadErrorFor (path_basename env (dest t)) msg) #
                    WorkerDone (tid t)
                      (Some (FailedToUpload (path_basename env (dest t)) MAX_RETRIES msg)) # ext \<and>
                  first_error (trace s1) \<noteq> None \<and>
                  (first_error (trace s) = None \<longrightarrow>
                     callbacks (trace s1) =
                       [Some (FailedToUpload (path_basename env (dest t)) MAX_RETRIES msg)]))"
    if ge: "\<not> retries t < MAX_RETRIES"
  proof -
    let ?e = "FailedToUpload (path_basename env (dest t)) MAX_RETRIES msg"
    let ?s0 = "s\<lparr>inflight := remove1 t (inflight s),
                  trace := trace s @ [Log Debug (UploadErrorFor (path_basename env (dest t)) msg)]\<rparr>"
    from ge bound have "retries t = 5" by (simp add: MAX_RETRIES_def)
    with del have d: "delays_of (tid t) (trace s) = [2000, 4000, 8000, 16000, 32000]"
      by (simp add: backoff_delays_5)
    have st: "step env cfg (StreamError (tid t) msg) s = Some (done_cb env cfg (tid t) (Some ?e) ?s0)"
      using step_StreamError_inflight [OF inv(3) assms(3), where env = env and cfg = cfg and msg = msg]
        ge
      by (simp add: on_error_def Let_def)
    from done_cb_trace [of env cfg "tid t" "Some ?e" ?s0] obtain ext where
      tr: "trace (done_cb env cfg (tid t) (Some ?e) ?s0) =
             trace s @ Log Debug (UploadErrorFor (path_basename env (dest t)) msg) #
               WorkerDone (tid t) (Some ?e) # ext"
      by auto
    have fe: "first_error (trace (done_cb env cfg (tid t) (Some ?e) ?s0)) \<noteq> None"
      unfolding tr by (simp add: first_error_append split: option.splits)
    have cb: "callbacks (trace (done_cb env cfg (tid t) (Some ?e) ?s0)) = [Some ?e]"
      if "first_error (trace s) = None"
    proof -
      have "\<not> idle s" using assms(3) by (auto simp: idle_def numRunning_def)
      with inv(1) that have "callbacks (trace s) = []"
        by (simp add: cb_inv_def)
      moreover from fatal_step [OF inv(1,3) assms(3) ge that, where env = env and cfg = cfg and msg = msg]
        st
      have "trace (done_cb env cfg (tid t) (Some ?e) ?s0) =
              trace s @ [Log Debug (UploadErrorFor (path_basename env (dest t)) msg),
                         WorkerDone (tid t) (Some ?e), Callback (Some ?e)]"
        by simp
      ultimately show ?thesis by (simp add: callbacks_append)
    qed
    let ?s1 = "done_cb env cfg (tid t) (Some ?e) ?s0"
    show ?thesis
    proof (intro conjI exI)
      show "delays_of (tid t) (trace s) = [2000, 4000, 8000, 16000, 32000]" by (rule d)
      show "step env cfg (StreamError (tid t) msg) s = Some ?s1" by (rule st)
      show "trace ?s1 =
             trace s @ Log Debug (UploadErrorFor (path_basename env (dest t)) msg) #
               WorkerDone (tid t) (Some ?e) # ext" by (rule tr)
      show "first_error (trace ?s1) \<noteq> None" by (rule fe)
      show "first_error (trace s) = None \<longrightarrow> callbacks (trace ?s1) = [Some ?e]"
        using cb by blast
    qed
  qed
  from orig retry fatal show ?thesis by blast
qed

theorem retry_backoff_schedule_witness:
  "\<exists>p s. uploadPaths demo_env demo_module demo_config ''/data'' ''bkt'' ''out'' [''a.tif'', ''d'']
            = Queued p \<and>
          run demo_env demo_config demo_events p = Some s \<and>
          demo_task2 \<in> set (inflight s) \<and>
          retries demo_task2 < MAX_RETRIES \<and>
          (\<exists>s1. step demo_env demo_config (StreamError (tid demo_task2) ''reset'') s = Some s1 \<and>
                backoff s1 = backoff s @ [(demo_task2\<lparr>retries := 1\<rparr>, 2000)]) \<and>
          demo_task0 \<in> set (inflight s) \<and>
          \<not> retries demo_task0 < MAX_RETRIES \<and>
          delays_of (tid demo_task0) (trace s) = [2000, 4000, 8000, 16000, 32000] \<and>
          (\<exists>s1. step demo_env demo_config (StreamError (tid demo_task0) ''reset'') s = Some s1 \<and>
                callbacks (trace s1) = [Some (FailedToUpload ''a.tif'' 5 ''reset'')])"
proof -
  from demo_run obtain p s where
    q: "uploadPaths demo_env demo_module demo_config ''/data'' ''bkt'' ''out'' [''a.tif'', ''d'']
          = Queued p"
    and r: "run demo_env demo_config demo_events p = Some s"
    and i: "inflight s = [demo_task2, demo_task0]"
    and fe: "first_error (trace s) = None"
    by fastforce
  have t2: "demo_task2 \<in> set (inflight s)" and t0: "demo_task0 \<in> set (inflight s)"
    by (simp_all add: i)
  have x2: "retries demo_task2 < MAX_RETRIES" and r2: "retries demo_task2 + 1 = 1"
    by (simp_all add: demo_task2_def MAX_RETRIES_def)
  have x0: "\<not> retries demo_task0 < MAX_RETRIES"
    by (simp add: demo_task0_def MAX_RETRIES_def)
  have b0: "path_basename demo_env (dest demo_task0) = ''a.tif''"
    by (simp add: demo_task0_def demo_env_def demo_basename_def)
  from retry_backoff_schedule [OF q r t2, of "''reset''"] x2
  have a: "\<exists>s1. step demo_env demo_config (StreamError (tid demo_task2) ''reset'') s = Some s1 \<and>
                backoff s1 = backoff s @ [(demo_task2\<lparr>retries := 1\<rparr>, 2000)]"
    unfolding r2 by auto
  from retry_backoff_schedule [OF q r t0, of "''reset''"] x0 fe
  have b: "delays_of (tid demo_task0) (trace s) = [2000, 4000, 8000, 16000, 32000]"
    and c: "\<exists>s1. step demo_env demo_config (StreamError (tid demo_task0) ''reset'') s = Some s1 \<and>
                callbacks (trace s1) = [Some (FailedToUpload ''a.tif'' 5 ''reset'')]"
    unfolding b0 MAX_RETRIES_def by auto
  from q r t2 x2 a t0 x0 b c show ?thesis by blast
qed

text \<open>
  Claim C5.  In every state that the batch can reach, every task that is pending, in
  flight or waiting for a retry has at most \<^verbatim>\<open>MAX_RETRIES\<close> (5) retries.  A task in flight
  whose retries are exhausted is terminal: when its transfer fails, the task leaves the
  queue for good; it is neither pending, in flight nor waiting in any later state.
\<close>

theorem retries_bounded_and_terminal:
  assumes "uploadPaths env m cfg srcFolder bucketName dstFolder paths = Queued p"
    and "run env cfg evs p = Some s"
  shows "(\<forall>t \<in> set (live_tasks s). retries t \<le> MAX_RETRIES) \<and>
         (\<forall>t \<in> set (inflight s).
            \<not> retries t < MAX_RETRIES \<longrightarrow>
              (\<exists>s1. step env cfg (StreamError (tid t) msg) s = Some s1 \<and>
                    tid t \<notin> tid ` set (live_tasks s1) \<and>
                    (\<forall>evs' s2. run env cfg evs' s1 = Some s2 \<longrightarrow>
                       tid t \<notin> tid ` set (live_tasks s2))))"
proof (intro conjI ballI impI)
  have inv: "cb_inv s" "sched_inv s" "task_inv (tasks_q p) s"
    using reachable_inv [OF assms] by simp_all
  {
    fix t assume "t \<in> set (live_tasks s)"
    with inv(3) show "retries t \<le> MAX_RETRIES" by (simp add: task_inv_def)
  }
  {
    fix t assume t: "t \<in> set (inflight s)" and ex: "\<not> retries t < MAX_RETRIES"
    let ?s0 = "s\<lparr>inflight := remove1 t (inflight s)\<rparr>"
    let ?D = "tid ` set (live_tasks ?s0)"
    from step_StreamError_inflight [OF inv(3) t, where env = env and cfg = cfg and msg = msg]
    have st: "step env cfg (StreamError (tid t) msg) s = Some (on_error env cfg t msg ?s0)"
      and nt: "tid t \<notin> ?D"
      by (simp_all add: live_tasks_def)
    let ?s0' = "?s0\<lparr>trace := trace ?s0 @
                   [Log Debug (UploadErrorFor (path_basename env (dest t)) msg)]\<rparr>"
    have l: "tid ` set (live_tasks ?s0') \<subseteq> ?D" by (simp add: live_tasks_def)
    have e1: "evolves ?D ?s0' (on_error env cfg t msg ?s0)"
      using ex done_cb_evolves [OF l, where env = env and cfg = cfg and k = "tid t"]
      by (simp add: on_error_def Let_def)
    have live1: "tid ` set (live_tasks (on_error env cfg t msg ?s0)) \<subseteq> ?D"
      using e1 by (rule evolves_live)
    have "\<forall>evs' s2. run env cfg evs' (on_error env cfg t msg ?s0) = Some s2 \<longrightarrow>
            tid t \<notin> tid ` set (live_tasks s2)"
    proof (intro allI impI)
      fix evs' s2 assume "run env cfg evs' (on_error env cfg t msg ?s0) = Some s2"
      from run_evolves [OF live1 this] have "tid ` set (live_tasks s2) \<subseteq> ?D"
        by (rule evolves_live)
      with nt show "tid t \<notin> tid ` set (live_tasks s2)" by blast
    qed
    with st live1 nt
    show "\<exists>s1. step env cfg (StreamError (tid t) msg) s = Some s1 \<and>
                    tid t \<notin> tid ` set (live_tasks s1) \<and>
                    (\<forall>evs' s2. run env cfg evs' s1 = Some s2 \<longrightarrow>
                       tid t \<notin> tid ` set (live_tasks s2))"
      by blast
  }
qed

theorem retries_bounded_and_terminal_witness:
  "\<exists>p s. uploadPaths demo_env demo_module demo_config ''/data'' ''bkt'' ''out'' [''a.tif'', ''d'']
            = Queued p \<and>
          run demo_env demo_config demo_events p = Some s \<and>
          demo_task0 \<in> set (inflight s) \<and>
          \<not> retries demo_task0 < MAX_RETRIES \<and>
          retries demo_task0 \<le> MAX_RETRIES \<and>
          (\<exists>s1. step demo_env demo_config (StreamError (tid demo_task0) ''reset'') s = Some s1 \<and>
                tid demo_task0 \<notin> tid ` set (live_tasks s1))"
proof -
  from demo_run obtain p s where
    q: "uploadPaths demo_env demo_module demo_config ''/data'' ''bkt'' ''out'' [''a.tif'', ''d'']
          = Queued p"
    and r: "run demo_env demo_config demo_events p = Some s"
    and i: "inflight s = [demo_task2, demo_task0]"
    by fastforce
  have t: "demo_task0 \<in> set (inflight s)" by (simp add: i)
  then have l: "demo_task0 \<in> set (live_tasks s)" by (simp add: live_tasks_def)
  have x: "\<not> retries demo_task0 < MAX_RETRIES"
    by (simp add: demo_task0_def MAX_RETRIES_def)
  from retries_bounded_and_terminal [OF q r, of "''reset''"] t l x
  have "retries demo_task0 \<le> MAX_RETRIES"
    and "\<exists>s1. step demo_env demo_config (StreamError (tid demo_task0) ''reset'') s = Some s1 \<and>
                tid demo_task0 \<notin> tid ` set (live_tasks s1)"
    by blast+
  with q r t x show ?thesis by blast
qed



section \<open>Cleanup of the local files\<close>







end
